theory Spec2Isabelle
  imports Main "HOL-Library.Word" "HOL-Library.Signed_Division"
begin

section \<open>A shallow embedding of sbvm.c\<close>

text \<open>
  The C program is a small stack-based bytecode interpreter. Its functions are
  embedded one by one, keeping their names.

  \<^item> \<^verbatim>\<open>int32_t\<close>, \<^verbatim>\<open>uint32_t\<close> are \<open>32 word\<close>, \<^verbatim>\<open>uint8_t\<close> is \<open>8 word\<close>. The values
    on the operand stack are two's complement numbers: \<open>+\<close>, \<open>-\<close>, \<open>*\<close> on them
    wrap around modulo \<open>2 ^ 32\<close>, and \<open>sint\<close> reads them as signed. (C itself
    leaves a signed result that does not fit undefined; the wrap-around is what
    the usual compilers and machines give for these three. Division is
    different, see \<open>c_div\<close>.) \<^verbatim>\<open>vm_pop\<close> returns \<^verbatim>\<open>uint32_t\<close> and its
    callers store the result in an \<^verbatim>\<open>int32_t\<close>: the same 32 bits.
  \<^item> Array indices and counters (\<^verbatim>\<open>top\<close>, \<^verbatim>\<open>count\<close>, \<^verbatim>\<open>ip\<close>, \<^verbatim>\<open>length\<close>, \<^verbatim>\<open>capacity\<close>)
    are \<open>int\<close> or \<open>nat\<close>: every access is checked against the array bound in the
    model, so they stay far away from the limits of their C types.
  \<^item> A function that may call \<^verbatim>\<open>exit(1)\<close> returns a pair: \<open>Inl f\<close> or \<open>Inr v\<close>, and
    the state the function leaves behind. \<open>Inl f\<close> means that the process ended
    with fault \<open>f\<close>; the state is then the one at the moment of the exit.
\<close>

type_synonym int32 = "32 word"
type_synonym uint8 = "8 word"

text \<open>
  The first five faults are the exits of the source: a line on the standard error
  stream (\<^verbatim>\<open>Stack overflow\<close>, \<^verbatim>\<open>Stack Underflow\<close>, \<^verbatim>\<open>Empty Stack\<close>,
  \<^verbatim>\<open>Call stack overflow\<close>, \<^verbatim>\<open>Call stack underflow\<close>) followed by \<^verbatim>\<open>exit(1)\<close>.
  \<open>DivisionTrap\<close> is the end of the process in a division whose quotient does not
  exist or does not fit: C leaves it undefined, the machine's division
  instruction traps and the process is killed. \<open>OutOfBounds\<close> marks an access to
  the stack arrays outside their bounds and a write outside an allocated block,
  which C leaves undefined and where the model stops.
\<close>

datatype fault =
    StackOverflow
  | StackUnderflow
  | EmptyStack
  | CallStackOverflow
  | CallStackUnderflow
  | DivisionTrap
  | OutOfBounds

subsection \<open>Opcodes\<close>

datatype OpCode =
    OP_NOP | OP_PUSH | OP_POP | OP_DUP | OP_SWAP
  | OP_ADD | OP_SUB | OP_MUL | OP_DIV
  | OP_JMP | OP_JZ | OP_JNZ
  | OP_CALL | OP_RET
  | OP_LOAD | OP_STORE
  | OP_PRINT | OP_STOP

text \<open>The value of each enumerator: C numbers them from 0 in declaration order.\<close>

fun enum_val :: "OpCode \<Rightarrow> uint8" where
  "enum_val OP_NOP = 0"
| "enum_val OP_PUSH = 1"
| "enum_val OP_POP = 2"
| "enum_val OP_DUP = 3"
| "enum_val OP_SWAP = 4"
| "enum_val OP_ADD = 5"
| "enum_val OP_SUB = 6"
| "enum_val OP_MUL = 7"
| "enum_val OP_DIV = 8"
| "enum_val OP_JMP = 9"
| "enum_val OP_JZ = 10"
| "enum_val OP_JNZ = 11"
| "enum_val OP_CALL = 12"
| "enum_val OP_RET = 13"
| "enum_val OP_LOAD = 14"
| "enum_val OP_STORE = 15"
| "enum_val OP_PRINT = 16"
| "enum_val OP_STOP = 17"

subsection \<open>The operand stack\<close>

definition STACK_MAX_SIZE :: int where
  "STACK_MAX_SIZE = 1024"

text \<open>
  \<^verbatim>\<open>int32_t data[STACK_MAX_SIZE]\<close> is a function from indices to values; an index is
  in the array when it lies in \<open>{0 ..< STACK_MAX_SIZE}\<close>. The field \<^verbatim>\<open>top\<close> is called
  \<open>top_ix\<close>, since \<open>top\<close> is a constant of HOL.
\<close>

record Stack =
  data :: "int \<Rightarrow> int32"
  top_ix :: int

definition in_data :: "int \<Rightarrow> bool" where
  "in_data i \<longleftrightarrow> 0 \<le> i \<and> i < STACK_MAX_SIZE"

definition stack_init :: "Stack \<Rightarrow> Stack" where
  "stack_init s = s\<lparr>top_ix := -1\<rparr>"

definition stack_isEmpty :: "Stack \<Rightarrow> bool" where
  "stack_isEmpty s \<longleftrightarrow> top_ix s = -1"

definition stack_isFull :: "Stack \<Rightarrow> bool" where
  "stack_isFull s \<longleftrightarrow> top_ix s \<ge> STACK_MAX_SIZE - 1"

definition stack_push :: "Stack \<Rightarrow> int32 \<Rightarrow> (fault + unit) \<times> Stack" where
  "stack_push s val =
     (if stack_isFull s then (Inl StackOverflow, s)
      else if in_data (top_ix s + 1)
        then (Inr (), s\<lparr>data := (data s)(top_ix s + 1 := val), top_ix := top_ix s + 1\<rparr>)
        else (Inl OutOfBounds, s))"

definition stack_pop :: "Stack \<Rightarrow> (fault + int32) \<times> Stack" where
  "stack_pop s =
     (if stack_isEmpty s then (Inl StackUnderflow, s)
      else if in_data (top_ix s)
        then (Inr (data s (top_ix s)), s\<lparr>top_ix := top_ix s - 1\<rparr>)
        else (Inl OutOfBounds, s))"

definition stack_peek :: "Stack \<Rightarrow> (fault + int32) \<times> Stack" where
  "stack_peek s =
     (if top_ix s < 0 then (Inl EmptyStack, s)
      else if in_data (top_ix s)
        then (Inr (data s (top_ix s)), s)
        else (Inl OutOfBounds, s))"

subsection \<open>The call stack\<close>

record CallFrame =
  return_addr :: nat
  frame_pointer :: int32

definition CALL_STACK_MAX :: int where
  "CALL_STACK_MAX = 256"

record CallStack =
  frames :: "int \<Rightarrow> CallFrame"
  count :: int

definition call_stack_init :: "CallStack \<Rightarrow> CallStack" where
  "call_stack_init cs = cs\<lparr>count := 0\<rparr>"

definition call_stack_push :: "CallStack \<Rightarrow> nat \<Rightarrow> int32 \<Rightarrow> (fault + unit) \<times> CallStack" where
  "call_stack_push cs ra fp =
     (if count cs \<ge> CALL_STACK_MAX then (Inl CallStackOverflow, cs)
      else if 0 \<le> count cs
        then (Inr (), cs\<lparr>frames := (frames cs)(count cs := \<lparr>return_addr = ra, frame_pointer = fp\<rparr>),
                         count := count cs + 1\<rparr>)
        else (Inl OutOfBounds, cs))"

definition call_stack_pop :: "CallStack \<Rightarrow> (fault + CallFrame) \<times> CallStack" where
  "call_stack_pop cs =
     (if count cs \<le> 0 then (Inl CallStackUnderflow, cs)
      else if count cs - 1 < CALL_STACK_MAX
        then (Inr (frames cs (count cs - 1)), cs\<lparr>count := count cs - 1\<rparr>)
        else (Inl OutOfBounds, cs))"

subsection \<open>The code segment\<close>

text \<open>
  The block behind \<^verbatim>\<open>uint8_t* code\<close> is a list with one entry per allocated byte:
  \<open>None\<close> for a byte that was never written. \<^verbatim>\<open>malloc\<close> gives a block of unwritten
  bytes; \<^verbatim>\<open>realloc\<close> keeps the old bytes up to the new size and adds unwritten
  ones. Allocation failure is not modelled. The field \<^verbatim>\<open>length\<close> is called
  \<open>length_cs\<close>.
\<close>

record CodeSegment =
  code :: "uint8 option list"
  length_cs :: nat
  capacity :: nat

definition malloc :: "nat \<Rightarrow> uint8 option list" where
  "malloc n = replicate n None"

definition realloc :: "uint8 option list \<Rightarrow> nat \<Rightarrow> uint8 option list" where
  "realloc buf n = take n buf @ replicate (n - length buf) None"

definition code_segment_init :: "CodeSegment \<Rightarrow> nat \<Rightarrow> CodeSegment" where
  "code_segment_init seg initial_capacity =
     seg\<lparr>code := malloc initial_capacity, length_cs := 0, capacity := initial_capacity\<rparr>"

definition code_segment_write :: "CodeSegment \<Rightarrow> uint8 \<Rightarrow> (fault + unit) \<times> CodeSegment" where
  "code_segment_write seg byte =
     (let seg1 =
        (if length_cs seg \<ge> capacity seg
         then (let new_capacity = capacity seg * 2
               in seg\<lparr>code := realloc (code seg) new_capacity, capacity := new_capacity\<rparr>)
         else seg)
      in if length_cs seg1 < length (code seg1)
         then (Inr (), seg1\<lparr>code := (code seg1)[length_cs seg1 := Some byte],
                             length_cs := length_cs seg1 + 1\<rparr>)
         else (Inl OutOfBounds, seg1))"

text \<open>
  Reading \<^verbatim>\<open>seg->code[i]\<close>. The source reads without any check. A byte that
  \<^verbatim>\<open>code_segment_write\<close> has written is read back. Anywhere else (a byte of the
  block that was never written, or the byte behind a full block) the read finds
  what the memory happens to hold: \<open>mem i\<close>, where \<open>mem\<close> is a parameter of the run
  and the theorems hold for every \<open>mem\<close>. \<^verbatim>\<open>vm_run\<close> reads an offset at most once, so
  one function describes what a run finds.
\<close>

definition code_at :: "(nat \<Rightarrow> uint8) \<Rightarrow> CodeSegment \<Rightarrow> nat \<Rightarrow> uint8" where
  "code_at mem seg i =
     (if i < length (code seg)
      then (case code seg ! i of Some b \<Rightarrow> b | None \<Rightarrow> mem i)
      else mem i)"

subsection \<open>The virtual machine\<close>

text \<open>
  \<^verbatim>\<open>code_segment\<close> is a pointer in the source. Nothing writes to the segment while
  the machine runs, so the record holds the segment itself.
\<close>

record VM =
  code_segment :: CodeSegment
  stack :: Stack
  running :: bool

definition vm_init :: "VM \<Rightarrow> CodeSegment \<Rightarrow> VM" where
  "vm_init vm cseg = vm\<lparr>code_segment := cseg, stack := stack_init (stack vm), running := False\<rparr>"

definition vm_push :: "VM \<Rightarrow> int32 \<Rightarrow> (fault + unit) \<times> VM" where
  "vm_push vm val = (case stack_push (stack vm) val of (r, s) \<Rightarrow> (r, vm\<lparr>stack := s\<rparr>))"

definition vm_pop :: "VM \<Rightarrow> (fault + int32) \<times> VM" where
  "vm_pop vm = (case stack_pop (stack vm) of (r, s) \<Rightarrow> (r, vm\<lparr>stack := s\<rparr>))"

text \<open>\<^verbatim>\<open>stack_peek(&vm->stack)\<close>, as the \<^verbatim>\<open>OP_DUP\<close> case calls it.\<close>

definition vm_peek :: "VM \<Rightarrow> (fault + int32) \<times> VM" where
  "vm_peek vm = (case stack_peek (stack vm) of (r, s) \<Rightarrow> (r, vm\<lparr>stack := s\<rparr>))"

subsection \<open>Formatted output\<close>

text \<open>
  What \<^verbatim>\<open>%d\<close> prints: the decimal digits, after a minus sign for a negative number.
  \<^verbatim>\<open>OP_PRINT\<close> hands the \<^verbatim>\<open>uint32_t\<close> from \<^verbatim>\<open>vm_pop\<close> to \<^verbatim>\<open>%d\<close>, which prints it as a
  signed number; the unknown opcode is a byte, printed as it is.
\<close>

fun dec_nat :: "nat \<Rightarrow> string" where
  "dec_nat n =
     (if n < 10 then [''0123456789'' ! n]
      else dec_nat (n div 10) @ [''0123456789'' ! (n mod 10)])"

definition dec_int :: "int \<Rightarrow> string" where
  "dec_int i = (if i < 0 then ''-'' @ dec_nat (nat (- i)) else dec_nat (nat i))"

definition newline :: char where
  "newline = CHR 0x0A"

text \<open>
  \<^verbatim>\<open>a / b\<close> on \<^verbatim>\<open>int32_t\<close>: the quotient truncated towards zero. There is none for
  \<open>b = 0\<close>, and \<open>- 2 ^ 31 / - 1\<close> does not fit in 32 bits: in both cases the
  division instruction traps.
\<close>

definition c_div :: "int32 \<Rightarrow> int32 \<Rightarrow> fault + int32" where
  "c_div a b =
     (if b = 0 \<or> (sint a = - (2 ^ 31) \<and> sint b = - 1) then Inl DivisionTrap
      else Inr (word_of_int (sint a sdiv sint b)))"

subsection \<open>The fetch-decode-execute loop\<close>

text \<open>
  The state of a run: the machine, the local variable \<^verbatim>\<open>ip\<close>, and what the run has
  written to the standard output and to the standard error stream so far.
\<close>

record run_state =
  vm :: VM
  ip :: nat
  out :: string
  err :: string

text \<open>
  The cases of the \<^verbatim>\<open>switch\<close>, one definition per \<^verbatim>\<open>case\<close> label. Each is
  entered after the \<^verbatim>\<open>ip++\<close> of the fetch.
\<close>

definition case_OP_NOP :: "run_state \<Rightarrow> (fault + unit) \<times> run_state" where
  "case_OP_NOP r = (Inr (), r)"

definition case_OP_PUSH :: "(nat \<Rightarrow> uint8) \<Rightarrow> run_state \<Rightarrow> (fault + unit) \<times> run_state" where
  "case_OP_PUSH mem r =
     (case vm_push (vm r) (ucast (code_at mem (code_segment (vm r)) (ip r))) of
        (res, v1) \<Rightarrow> (res, r\<lparr>vm := v1, ip := ip r + 1\<rparr>))"

definition case_OP_POP :: "run_state \<Rightarrow> (fault + unit) \<times> run_state" where
  "case_OP_POP r =
     (case vm_pop (vm r) of
        (Inl f, v1) \<Rightarrow> (Inl f, r\<lparr>vm := v1\<rparr>)
      | (Inr x, v1) \<Rightarrow> (Inr (), r\<lparr>vm := v1\<rparr>))"

definition case_OP_DUP :: "run_state \<Rightarrow> (fault + unit) \<times> run_state" where
  "case_OP_DUP r =
     (case vm_peek (vm r) of
        (Inl f, v1) \<Rightarrow> (Inl f, r\<lparr>vm := v1\<rparr>)
      | (Inr val, v1) \<Rightarrow>
          (case vm_push v1 val of (res, v2) \<Rightarrow> (res, r\<lparr>vm := v2\<rparr>)))"

definition case_OP_SWAP :: "run_state \<Rightarrow> (fault + unit) \<times> run_state" where
  "case_OP_SWAP r =
     (case vm_pop (vm r) of
        (Inl f, v1) \<Rightarrow> (Inl f, r\<lparr>vm := v1\<rparr>)
      | (Inr a, v1) \<Rightarrow>
     (case vm_pop v1 of
        (Inl f, v2) \<Rightarrow> (Inl f, r\<lparr>vm := v2\<rparr>)
      | (Inr b, v2) \<Rightarrow>
     (case vm_push v2 a of
        (Inl f, v3) \<Rightarrow> (Inl f, r\<lparr>vm := v3\<rparr>)
      | (Inr u, v3) \<Rightarrow>
     (case vm_push v3 b of (res, v4) \<Rightarrow> (res, r\<lparr>vm := v4\<rparr>)))))"

definition case_OP_ADD :: "run_state \<Rightarrow> (fault + unit) \<times> run_state" where
  "case_OP_ADD r =
     (case vm_pop (vm r) of
        (Inl f, v1) \<Rightarrow> (Inl f, r\<lparr>vm := v1\<rparr>)
      | (Inr b, v1) \<Rightarrow>
     (case vm_pop v1 of
        (Inl f, v2) \<Rightarrow> (Inl f, r\<lparr>vm := v2\<rparr>)
      | (Inr a, v2) \<Rightarrow>
     (case vm_push v2 (a + b) of (res, v3) \<Rightarrow> (res, r\<lparr>vm := v3\<rparr>))))"

definition case_OP_SUB :: "run_state \<Rightarrow> (fault + unit) \<times> run_state" where
  "case_OP_SUB r =
     (case vm_pop (vm r) of
        (Inl f, v1) \<Rightarrow> (Inl f, r\<lparr>vm := v1\<rparr>)
      | (Inr b, v1) \<Rightarrow>
     (case vm_pop v1 of
        (Inl f, v2) \<Rightarrow> (Inl f, r\<lparr>vm := v2\<rparr>)
      | (Inr a, v2) \<Rightarrow>
     (case vm_push v2 (a - b) of (res, v3) \<Rightarrow> (res, r\<lparr>vm := v3\<rparr>))))"

definition case_OP_MUL :: "run_state \<Rightarrow> (fault + unit) \<times> run_state" where
  "case_OP_MUL r =
     (case vm_pop (vm r) of
        (Inl f, v1) \<Rightarrow> (Inl f, r\<lparr>vm := v1\<rparr>)
      | (Inr b, v1) \<Rightarrow>
     (case vm_pop v1 of
        (Inl f, v2) \<Rightarrow> (Inl f, r\<lparr>vm := v2\<rparr>)
      | (Inr a, v2) \<Rightarrow>
     (case vm_push v2 (a * b) of (res, v3) \<Rightarrow> (res, r\<lparr>vm := v3\<rparr>))))"

definition case_OP_DIV :: "run_state \<Rightarrow> (fault + unit) \<times> run_state" where
  "case_OP_DIV r =
     (case vm_pop (vm r) of
        (Inl f, v1) \<Rightarrow> (Inl f, r\<lparr>vm := v1\<rparr>)
      | (Inr b, v1) \<Rightarrow>
     (case vm_pop v1 of
        (Inl f, v2) \<Rightarrow> (Inl f, r\<lparr>vm := v2\<rparr>)
      | (Inr a, v2) \<Rightarrow>
          if b = 0
          then (Inr (), r\<lparr>vm := v2\<lparr>running := False\<rparr>,
                           err := err r @ ''Error: Division by zero'' @ [newline]\<rparr>)
          else (case c_div a b of
                  Inl f \<Rightarrow> (Inl f, r\<lparr>vm := v2\<rparr>)
                | Inr q \<Rightarrow> (case vm_push v2 q of (res, v3) \<Rightarrow> (res, r\<lparr>vm := v3\<rparr>)))))"

definition case_OP_PRINT :: "run_state \<Rightarrow> (fault + unit) \<times> run_state" where
  "case_OP_PRINT r =
     (case vm_pop (vm r) of
        (Inl f, v1) \<Rightarrow> (Inl f, r\<lparr>vm := v1\<rparr>)
      | (Inr x, v1) \<Rightarrow>
          (Inr (), r\<lparr>vm := v1, out := out r @ dec_int (sint x) @ [newline]\<rparr>))"

definition case_OP_STOP :: "run_state \<Rightarrow> (fault + unit) \<times> run_state" where
  "case_OP_STOP r = (Inr (), r\<lparr>vm := (vm r)\<lparr>running := False\<rparr>\<rparr>)"

definition case_default :: "uint8 \<Rightarrow> run_state \<Rightarrow> (fault + unit) \<times> run_state" where
  "case_default opcode r =
     (Inr (), r\<lparr>vm := (vm r)\<lparr>running := False\<rparr>,
                err := err r @ ''Unknown opcode: '' @ dec_nat (unat opcode) @ [newline]\<rparr>)"

text \<open>
  The \<^verbatim>\<open>switch (opcode)\<close> itself. There is no \<^verbatim>\<open>case\<close> label for \<^verbatim>\<open>OP_JMP\<close>, \<^verbatim>\<open>OP_JZ\<close>,
  \<^verbatim>\<open>OP_JNZ\<close>, \<^verbatim>\<open>OP_CALL\<close>, \<^verbatim>\<open>OP_RET\<close>, \<^verbatim>\<open>OP_LOAD\<close> and \<^verbatim>\<open>OP_STORE\<close>: they go to
  \<^verbatim>\<open>default\<close>, like every byte above 17.
\<close>

definition exec :: "(nat \<Rightarrow> uint8) \<Rightarrow> uint8 \<Rightarrow> run_state \<Rightarrow> (fault + unit) \<times> run_state" where
  "exec mem opcode r =
    (if opcode = enum_val OP_NOP then case_OP_NOP r
     else if opcode = enum_val OP_PUSH then case_OP_PUSH mem r
     else if opcode = enum_val OP_POP then case_OP_POP r
     else if opcode = enum_val OP_DUP then case_OP_DUP r
     else if opcode = enum_val OP_SWAP then case_OP_SWAP r
     else if opcode = enum_val OP_ADD then case_OP_ADD r
     else if opcode = enum_val OP_SUB then case_OP_SUB r
     else if opcode = enum_val OP_MUL then case_OP_MUL r
     else if opcode = enum_val OP_DIV then case_OP_DIV r
     else if opcode = enum_val OP_PRINT then case_OP_PRINT r
     else if opcode = enum_val OP_STOP then case_OP_STOP r
     else case_default opcode r)"

text \<open>One iteration of the \<^verbatim>\<open>while\<close> loop: \<^verbatim>\<open>opcode = code[ip++]\<close>, then the switch.\<close>

definition vm_step :: "(nat \<Rightarrow> uint8) \<Rightarrow> run_state \<Rightarrow> (fault + unit) \<times> run_state" where
  "vm_step mem r = exec mem (code_at mem (code_segment (vm r)) (ip r)) (r\<lparr>ip := ip r + 1\<rparr>)"

text \<open>
  An iteration that returns leaves the code segment alone and moves \<^verbatim>\<open>ip\<close> forward.
  This is what makes the \<^verbatim>\<open>while\<close> loop terminate.
\<close>

lemma vm_push_code: "vm_push v x = (res, v') \<Longrightarrow> code_segment v' = code_segment v"
  by (auto simp: vm_push_def split: prod.splits)

lemma vm_pop_code: "vm_pop v = (res, v') \<Longrightarrow> code_segment v' = code_segment v"
  by (auto simp: vm_pop_def split: prod.splits)

lemma vm_peek_code: "vm_peek v = (res, v') \<Longrightarrow> code_segment v' = code_segment v"
  by (auto simp: vm_peek_def split: prod.splits)

definition keeps :: "run_state \<Rightarrow> run_state \<Rightarrow> bool" where
  "keeps r r' \<longleftrightarrow> code_segment (vm r') = code_segment (vm r) \<and> ip r \<le> ip r'"

lemma keeps_NOP: "case_OP_NOP r = (res, r') \<Longrightarrow> keeps r r'"
  by (auto simp: case_OP_NOP_def keeps_def)

lemma keeps_PUSH: "case_OP_PUSH mem r = (res, r') \<Longrightarrow> keeps r r'"
  by (auto simp: case_OP_PUSH_def keeps_def split: prod.splits dest!: vm_push_code)

lemma keeps_POP: "case_OP_POP r = (res, r') \<Longrightarrow> keeps r r'"
  by (auto simp: case_OP_POP_def keeps_def split: sum.splits prod.splits dest!: vm_pop_code)

lemma keeps_DUP: "case_OP_DUP r = (res, r') \<Longrightarrow> keeps r r'"
  by (auto simp: case_OP_DUP_def keeps_def split: sum.splits prod.splits
      dest!: vm_push_code vm_peek_code)

lemma keeps_SWAP: "case_OP_SWAP r = (res, r') \<Longrightarrow> keeps r r'"
  by (auto simp: case_OP_SWAP_def keeps_def split: sum.splits prod.splits
      dest!: vm_push_code vm_pop_code)

lemma keeps_ADD: "case_OP_ADD r = (res, r') \<Longrightarrow> keeps r r'"
  by (auto simp: case_OP_ADD_def keeps_def split: sum.splits prod.splits
      dest!: vm_push_code vm_pop_code)

lemma keeps_SUB: "case_OP_SUB r = (res, r') \<Longrightarrow> keeps r r'"
  by (auto simp: case_OP_SUB_def keeps_def split: sum.splits prod.splits
      dest!: vm_push_code vm_pop_code)

lemma keeps_MUL: "case_OP_MUL r = (res, r') \<Longrightarrow> keeps r r'"
  by (auto simp: case_OP_MUL_def keeps_def split: sum.splits prod.splits
      dest!: vm_push_code vm_pop_code)

lemma keeps_DIV: "case_OP_DIV r = (res, r') \<Longrightarrow> keeps r r'"
  by (auto simp: case_OP_DIV_def keeps_def split: sum.splits prod.splits if_splits
      dest!: vm_push_code vm_pop_code)

lemma keeps_PRINT: "case_OP_PRINT r = (res, r') \<Longrightarrow> keeps r r'"
  by (auto simp: case_OP_PRINT_def keeps_def split: sum.splits prod.splits
      dest!: vm_pop_code)

lemma keeps_STOP: "case_OP_STOP r = (res, r') \<Longrightarrow> keeps r r'"
  by (auto simp: case_OP_STOP_def keeps_def)

lemma keeps_default: "case_default opcode r = (res, r') \<Longrightarrow> keeps r r'"
  by (auto simp: case_default_def keeps_def)

lemmas keeps_cases = keeps_NOP keeps_PUSH keeps_POP keeps_DUP keeps_SWAP keeps_ADD
  keeps_SUB keeps_MUL keeps_DIV keeps_PRINT keeps_STOP keeps_default

lemma exec_keeps: "exec mem opcode r = (res, r') \<Longrightarrow> keeps r r'"
  unfolding exec_def by (auto split: if_splits intro: keeps_cases)

lemma vm_step_keeps:
  assumes "vm_step mem r = (res, r')"
  shows "code_segment (vm r') = code_segment (vm r) \<and> ip r < ip r'"
proof -
  from assms have "keeps (r\<lparr>ip := ip r + 1\<rparr>) r'"
    unfolding vm_step_def by (rule exec_keeps)
  then show ?thesis by (simp add: keeps_def)
qed

text \<open>
  The \<^verbatim>\<open>while\<close> loop of \<^verbatim>\<open>vm_run\<close>. A fault ends the process, so it ends the loop.
\<close>

function vm_loop :: "(nat \<Rightarrow> uint8) \<Rightarrow> run_state \<Rightarrow> (fault + unit) \<times> run_state" where
  "vm_loop mem r =
     (if running (vm r) \<and> ip r < length_cs (code_segment (vm r))
      then (case vm_step mem r of
              (Inl f, r') \<Rightarrow> (Inl f, r')
            | (Inr u, r') \<Rightarrow> vm_loop mem r')
      else (Inr (), r))"
  by pat_completeness auto
termination
proof (relation "measure (\<lambda>(mem, r). length_cs (code_segment (vm r)) - ip r)")
  show "wf (measure (\<lambda>(mem, r). length_cs (code_segment (vm r)) - ip r))" by simp
next
  fix mem and r :: run_state and x y u
  assume a: "running (vm r) \<and> ip r < length_cs (code_segment (vm r))"
    and b: "(x, y) = vm_step mem r" and c: "x = Inr u"
  from b have s: "vm_step mem r = (x, y)" by simp
  from vm_step_keeps [OF s] a
  show "((mem, y), (mem, r)) \<in> measure (\<lambda>(mem, r). length_cs (code_segment (vm r)) - ip r)"
    by (simp add: diff_less_mono2)
qed

text \<open>
  \<^verbatim>\<open>vm_run\<close>: the result holds the machine, the final \<^verbatim>\<open>ip\<close> and what this run wrote
  to the two streams.
\<close>

definition vm_run :: "(nat \<Rightarrow> uint8) \<Rightarrow> VM \<Rightarrow> (fault + unit) \<times> run_state" where
  "vm_run mem v = vm_loop mem \<lparr>vm = v\<lparr>running := True\<rparr>, ip = 0, out = [], err = []\<rparr>"

subsection \<open>Iterations of the loop\<close>

text \<open>The bytes for which the \<^verbatim>\<open>switch\<close> has a \<^verbatim>\<open>case\<close> label.\<close>

definition handled :: "uint8 \<Rightarrow> bool" where
  "handled opcode \<longleftrightarrow>
     opcode \<in> enum_val ` {OP_NOP, OP_PUSH, OP_POP, OP_DUP, OP_SWAP, OP_ADD, OP_SUB, OP_MUL,
                           OP_DIV, OP_PRINT, OP_STOP}"

text \<open>
  The instruction at \<^verbatim>\<open>ip\<close> is one that clears the flag \<^verbatim>\<open>running\<close>: \<^verbatim>\<open>STOP\<close>, a
  \<^verbatim>\<open>DIV\<close> with zero on top of the stack, or a byte that goes to \<^verbatim>\<open>default\<close>.
\<close>

definition halts_run :: "(nat \<Rightarrow> uint8) \<Rightarrow> run_state \<Rightarrow> bool" where
  "halts_run mem r \<longleftrightarrow>
     (let opcode = code_at mem (code_segment (vm r)) (ip r)
      in opcode = enum_val OP_STOP
         \<or> (opcode = enum_val OP_DIV \<and> data (stack (vm r)) (top_ix (stack (vm r))) = 0)
         \<or> \<not> handled opcode)"

text \<open>
  \<open>iteration mem r r'\<close>: the loop condition holds in \<open>r\<close>, and the loop body takes
  \<open>r\<close> to \<open>r'\<close> without leaving the process.
\<close>

definition iteration :: "(nat \<Rightarrow> uint8) \<Rightarrow> run_state \<Rightarrow> run_state \<Rightarrow> bool" where
  "iteration mem r r' \<longleftrightarrow>
     running (vm r) \<and> ip r < length_cs (code_segment (vm r)) \<and> vm_step mem r = (Inr (), r')"

text \<open>The top index is \<open>- 1\<close> or an index of the array, as \<^verbatim>\<open>stack_init\<close> leaves it.\<close>

definition stack_ok :: "Stack \<Rightarrow> bool" where
  "stack_ok s \<longleftrightarrow> - 1 \<le> top_ix s \<and> top_ix s < STACK_MAX_SIZE"

text \<open>
  A result of the loop body or of the loop with the stack still in that shape
  and no access outside an array.
\<close>

definition safe :: "(fault + unit) \<times> run_state \<Rightarrow> bool" where
  "safe x \<longleftrightarrow> stack_ok (stack (vm (snd x))) \<and> fst x \<noteq> Inl OutOfBounds"

subsection \<open>Sequences of calls\<close>

text \<open>
  \<^verbatim>\<open>main\<close> fills the code segment by calling \<^verbatim>\<open>code_segment_write\<close> once per byte.
  \<open>code_segment_write_all\<close> is such a run of calls.
\<close>

fun code_segment_write_all :: "CodeSegment \<Rightarrow> uint8 list \<Rightarrow> (fault + unit) \<times> CodeSegment" where
  "code_segment_write_all seg [] = (Inr (), seg)"
| "code_segment_write_all seg (b # bs) =
     (case code_segment_write seg b of
        (Inl f, seg') \<Rightarrow> (Inl f, seg')
      | (Inr u, seg') \<Rightarrow> code_segment_write_all seg' bs)"

text \<open>
  A caller of the operand stack: a list of calls of \<^verbatim>\<open>stack_push\<close> and \<^verbatim>\<open>stack_pop\<close>,
  run in order until one of them exits. The result lists the values that the
  calls of \<^verbatim>\<open>stack_pop\<close> returned, first call first.
\<close>

datatype stack_call = Push int32 | Pop

fun stack_calls :: "Stack \<Rightarrow> stack_call list \<Rightarrow> (fault + int32 list) \<times> Stack" where
  "stack_calls s [] = (Inr [], s)"
| "stack_calls s (Push v # cs) =
     (case stack_push s v of
        (Inl f, s') \<Rightarrow> (Inl f, s')
      | (Inr u, s') \<Rightarrow> stack_calls s' cs)"
| "stack_calls s (Pop # cs) =
     (case stack_pop s of
        (Inl f, s') \<Rightarrow> (Inl f, s')
      | (Inr x, s') \<Rightarrow>
          (case stack_calls s' cs of
             (Inl f, s'') \<Rightarrow> (Inl f, s'')
           | (Inr xs, s'') \<Rightarrow> (Inr (x # xs), s'')))"

text \<open>The values on the stack, the top one first, and their number.\<close>

definition stack_size :: "Stack \<Rightarrow> int" where
  "stack_size s = top_ix s + 1"

definition stack_values :: "Stack \<Rightarrow> int32 list" where
  "stack_values s = rev (map (\<lambda>i. data s (int i)) [0 ..< nat (top_ix s + 1)])"

text \<open>
  The LIFO law in the words of the specification, on a plain list with the top
  value first: a push puts a value in front, a pop takes the front value away and
  returns it, and a pop of the empty list is not a valid call. \<open>lifo_spec st cs\<close>
  gives the values popped by the calls \<open>cs\<close>, first call first, and the list left.
\<close>

fun lifo_spec :: "int32 list \<Rightarrow> stack_call list \<Rightarrow> (int32 list \<times> int32 list) option" where
  "lifo_spec st [] = Some ([], st)"
| "lifo_spec st (Push v # cs) = lifo_spec (v # st) cs"
| "lifo_spec [] (Pop # cs) = None"
| "lifo_spec (x # st) (Pop # cs) =
     (case lifo_spec st cs of None \<Rightarrow> None | Some (xs, st') \<Rightarrow> Some (x # xs, st'))"

text \<open>The number of pushes and of pops in a list of calls.\<close>

fun pushes :: "stack_call list \<Rightarrow> nat" where
  "pushes [] = 0"
| "pushes (Push v # cs) = Suc (pushes cs)"
| "pushes (Pop # cs) = pushes cs"

fun pops :: "stack_call list \<Rightarrow> nat" where
  "pops [] = 0"
| "pops (Push v # cs) = pops cs"
| "pops (Pop # cs) = Suc (pops cs)"

subsection \<open>Auxiliary notions\<close>

text \<open>
  The segment holds the bytes \<open>bytes\<close> and nothing else: its length is their
  number, and they are the bytes written at the offsets below it.
\<close>

definition holds_program :: "CodeSegment \<Rightarrow> uint8 list \<Rightarrow> bool" where
  "holds_program seg bytes \<longleftrightarrow>
     length_cs seg = length bytes
     \<and> (\<forall>i < length bytes. i < length (code seg) \<and> code seg ! i = Some (bytes ! i))"

text \<open>The state after the two pops of a binary operation, and after its push.\<close>

definition popped2 :: "VM \<Rightarrow> VM" where
  "popped2 v = v\<lparr>stack := (stack v)\<lparr>top_ix := top_ix (stack v) - 2\<rparr>\<rparr>"

definition replaced2 :: "VM \<Rightarrow> int32 \<Rightarrow> VM" where
  "replaced2 v x =
     v\<lparr>stack := (stack v)\<lparr>data := (data (stack v))(top_ix (stack v) - 1 := x),
                           top_ix := top_ix (stack v) - 1\<rparr>\<rparr>"

subsection \<open>Well-formed code segments\<close>

text \<open>
  What \<^verbatim>\<open>code_segment_init\<close> establishes for a positive capacity and what
  \<^verbatim>\<open>code_segment_write\<close> keeps: the length is within the capacity, the capacity is
  the size of the allocated block, and it is not zero.
\<close>

definition segment_ok :: "CodeSegment \<Rightarrow> bool" where
  "segment_ok seg \<longleftrightarrow>
     length_cs seg \<le> capacity seg \<and> capacity seg = length (code seg) \<and> 0 < capacity seg"

subsection \<open>Concrete inputs\<close>

text \<open>
  \<^verbatim>\<open>main\<close> declares its \<^verbatim>\<open>VM\<close> and \<^verbatim>\<open>CodeSegment\<close> without initialising them. The examples
  below start from memory that holds zeros, also where the code block was not
  written (\<open>zero_mem\<close>).
\<close>

definition zero_stack :: Stack where
  "zero_stack = \<lparr>data = (\<lambda>i. 0), top_ix = 0\<rparr>"

definition zero_mem :: "nat \<Rightarrow> uint8" where
  "zero_mem i = 0"

definition zero_segment :: CodeSegment where
  "zero_segment = \<lparr>code = [], length_cs = 0, capacity = 0\<rparr>"

text \<open>
  The code segment as \<^verbatim>\<open>main\<close> builds it: \<^verbatim>\<open>code_segment_init\<close> with capacity 256, then
  one \<^verbatim>\<open>code_segment_write\<close> per byte.
\<close>

definition assemble :: "uint8 list \<Rightarrow> CodeSegment" where
  "assemble bytes = snd (code_segment_write_all (code_segment_init zero_segment 256) bytes)"

definition zero_vm :: VM where
  "zero_vm = \<lparr>code_segment = zero_segment, stack = zero_stack, running = False\<rparr>"

text \<open>A machine about to execute \<^verbatim>\<open>SUB\<close> with 3 on top of 7.\<close>

definition sub_state :: run_state where
  "sub_state =
     \<lparr>vm = \<lparr>code_segment = assemble [enum_val OP_SUB],
             stack = \<lparr>data = (data zero_stack)(0 := 7, 1 := 3), top_ix = 1\<rparr>,
             running = True\<rparr>,
      ip = 0, out = [], err = []\<rparr>"

text \<open>A machine about to execute \<^verbatim>\<open>PUSH 200\<close> on the empty stack.\<close>

definition push_state :: run_state where
  "push_state =
     \<lparr>vm = vm_init zero_vm (assemble [enum_val OP_PUSH, 200])\<lparr>running := True\<rparr>,
      ip = 0, out = [], err = []\<rparr>"


text \<open>
  Programs with a conditional jump over \<^verbatim>\<open>PUSH 1, PRINT\<close> to the final \<^verbatim>\<open>STOP\<close>, a
  program that calls a function made of \<^verbatim>\<open>RET\<close> alone, and the program of \<^verbatim>\<open>main\<close>
  without its \<^verbatim>\<open>STOP\<close>.
\<close>

definition jz_program :: "uint8 list" where
  "jz_program =
     [enum_val OP_PUSH, 0, enum_val OP_JZ, 7, enum_val OP_PUSH, 1, enum_val OP_PRINT,
      enum_val OP_STOP]"

definition jnz_program :: "uint8 list" where
  "jnz_program =
     [enum_val OP_PUSH, 1, enum_val OP_JNZ, 7, enum_val OP_PUSH, 1, enum_val OP_PRINT,
      enum_val OP_STOP]"

definition call_program :: "uint8 list" where
  "call_program = [enum_val OP_CALL, 3, enum_val OP_STOP, enum_val OP_RET]"

definition no_stop_program :: "uint8 list" where
  "no_stop_program = [enum_val OP_PUSH, 5, enum_val OP_PUSH, 4, enum_val OP_ADD, enum_val OP_PRINT]"



text \<open>A program that ends with a \<^verbatim>\<open>PUSH\<close> whose immediate byte was never written.\<close>

definition dangling_push_program :: "uint8 list" where
  "dangling_push_program = [enum_val OP_PUSH]"

section \<open>Properties of the operand stack\<close>

lemma stack_push_Inr:
  assumes "stack_push s v = (Inr u, s')"
  shows "- 1 \<le> top_ix s" and "top_ix s < STACK_MAX_SIZE - 1"
    and "s' = s\<lparr>data := (data s)(top_ix s + 1 := v), top_ix := top_ix s + 1\<rparr>"
  using assms by (auto simp: stack_push_def stack_isFull_def in_data_def split: if_splits)

lemma stack_pop_Inr:
  assumes "stack_pop s = (Inr x, s')"
  shows "0 \<le> top_ix s" and "top_ix s < STACK_MAX_SIZE"
    and "x = data s (top_ix s)" and "s' = s\<lparr>top_ix := top_ix s - 1\<rparr>"
  using assms by (auto simp: stack_pop_def stack_isEmpty_def in_data_def split: if_splits)

lemma stack_values_push:
  assumes "stack_push s v = (Inr u, s')"
  shows "stack_values s' = v # stack_values s"
proof -
  note h = stack_push_Inr [OF assms]
  define n where "n = nat (top_ix s + 1)"
  with h(1) have t: "top_ix s = int n - 1" by simp
  have k: "nat (int n + 1) = Suc n" by simp
  have "map (\<lambda>i. if i = n then v else data s (int i)) [0 ..< n] = map (\<lambda>i. data s (int i)) [0 ..< n]"
    by simp
  then show ?thesis
    by (simp add: stack_values_def h(3) t k)
qed

lemma stack_values_pop:
  assumes "stack_pop s = (Inr x, s')"
  shows "stack_values s = x # stack_values s'"
proof -
  note h = stack_pop_Inr [OF assms]
  define n where "n = nat (top_ix s)"
  with h(1) have t: "top_ix s = int n" by simp
  have k: "nat (int n + 1) = Suc n" by simp
  show ?thesis
    by (simp add: stack_values_def h(3,4) t k)
qed

lemma stack_calls_size:
  "stack_calls s cs = (Inr popped, s') \<Longrightarrow>
     stack_size s' = stack_size s + int (pushes cs) - int (pops cs)"
proof (induction s cs arbitrary: popped s' rule: stack_calls.induct)
  case (1 s)
  then show ?case by simp
next
  case (2 s v cs)
  from "2.prems" obtain u s1 where p: "stack_push s v = (Inr u, s1)"
    and c: "stack_calls s1 cs = (Inr popped, s')"
    by (auto split: prod.splits sum.splits)
  from "2.IH" [OF _ _ c] p have "stack_size s' = stack_size s1 + int (pushes cs) - int (pops cs)"
    by simp
  moreover from stack_push_Inr(3) [OF p] have "stack_size s1 = stack_size s + 1"
    by (simp add: stack_size_def)
  ultimately show ?case by simp
next
  case (3 s cs)
  from "3.prems" obtain x s1 xs where p: "stack_pop s = (Inr x, s1)"
    and c: "stack_calls s1 cs = (Inr xs, s')"
    by (auto split: prod.splits sum.splits)
  from "3.IH" [OF _ _ c] p have "stack_size s' = stack_size s1 + int (pushes cs) - int (pops cs)"
    by simp
  moreover from stack_pop_Inr(4) [OF p] have "stack_size s1 = stack_size s - 1"
    by (simp add: stack_size_def)
  ultimately show ?case by simp
qed

lemma stack_calls_lifo:
  "stack_calls s cs = (Inr popped, s') \<Longrightarrow>
     lifo_spec (stack_values s) cs = Some (popped, stack_values s')"
proof (induction s cs arbitrary: popped s' rule: stack_calls.induct)
  case (1 s)
  then show ?case by simp
next
  case (2 s v cs)
  from "2.prems" obtain u s1 where p: "stack_push s v = (Inr u, s1)"
    and c: "stack_calls s1 cs = (Inr popped, s')"
    by (auto split: prod.splits sum.splits)
  from "2.IH" [OF _ _ c] p have "lifo_spec (stack_values s1) cs = Some (popped, stack_values s')"
    by simp
  with stack_values_push [OF p] show ?case by simp
next
  case (3 s cs)
  from "3.prems" obtain x s1 xs where p: "stack_pop s = (Inr x, s1)"
    and c: "stack_calls s1 cs = (Inr xs, s')" and e: "popped = x # xs"
    by (auto split: prod.splits sum.splits)
  from "3.IH" [OF _ _ c] p have "lifo_spec (stack_values s1) cs = Some (xs, stack_values s')"
    by simp
  with stack_values_pop [OF p] e show ?case by simp
qed

lemma lifo_spec_pushes: "lifo_spec st (map Push vs @ cs) = lifo_spec (rev vs @ st) cs"
  by (induction vs arbitrary: st) simp_all

lemma lifo_spec_pops: "lifo_spec (xs @ st) (replicate (length xs) Pop) = Some (xs, st)"
  by (induction xs) simp_all



text \<open>
  \<^bold>\<open>C9\<close> (LIFO law). Take any list of calls of \<^verbatim>\<open>stack_push\<close> and \<^verbatim>\<open>stack_pop\<close> that
  runs to its end, that is, no call pops the empty stack or pushes on the full
  one. Then the size of the stack afterwards is the size before, plus the number
  of pushes, minus the number of pops; the values returned by the pops and the
  values left on the stack are those of the LIFO law \<open>lifo_spec\<close>; in particular,
  values pushed one after the other and then popped come back in reverse order.
\<close>

theorem stack_lifo_law:
  assumes "stack_calls s cs = (Inr popped, s')"
  shows "stack_size s' = stack_size s + int (pushes cs) - int (pops cs)
       \<and> lifo_spec (stack_values s) cs = Some (popped, stack_values s')
       \<and> (\<forall>vs. cs = map Push vs @ replicate (length vs) Pop \<longrightarrow> popped = rev vs)"
proof -
  note l = stack_calls_lifo [OF assms]
  have "popped = rev vs" if "cs = map Push vs @ replicate (length vs) Pop" for vs
  proof -
    have "lifo_spec (stack_values s) cs
        = lifo_spec (rev vs @ stack_values s) (replicate (length (rev vs)) Pop)"
      by (simp add: that lifo_spec_pushes)
    also have "\<dots> = Some (rev vs, stack_values s)"
      by (rule lifo_spec_pops)
    finally show ?thesis using l by simp
  qed
  with l stack_calls_size [OF assms] show ?thesis by blast
qed

theorem stack_lifo_law_witness:
  "stack_calls (stack_init zero_stack) [Push 1, Push 2, Pop, Push 3, Pop, Pop]
     = (Inr [2, 3, 1], stack_init (zero_stack\<lparr>data := (data zero_stack)(0 := 1, 1 := 3)\<rparr>))
   \<and> stack_size (stack_init (zero_stack\<lparr>data := (data zero_stack)(0 := 1, 1 := 3)\<rparr>)) = 0
   \<and> lifo_spec [] [Push 1, Push 2, Pop, Push 3, Pop, Pop] = Some ([2, 3, 1], [])"
proof -
  have h: "stack_calls (stack_init zero_stack) [Push 1, Push 2, Pop, Push 3, Pop, Pop]
     = (Inr [2, 3, 1], stack_init (zero_stack\<lparr>data := (data zero_stack)(0 := 1, 1 := 3)\<rparr>))"
    by (simp add: stack_init_def zero_stack_def stack_push_def stack_pop_def stack_isFull_def
        stack_isEmpty_def in_data_def STACK_MAX_SIZE_def fun_upd_twist)
  from stack_lifo_law [OF h] h show ?thesis
    by (simp add: stack_size_def stack_values_def stack_init_def)
qed


lemma stack_calls_pushes_append:
  "stack_calls s (map Push vs) = (Inr [], s1) \<Longrightarrow>
     stack_calls s (map Push vs @ cs) = stack_calls s1 cs"
proof (induction vs arbitrary: s)
  case Nil
  then show ?case by simp
next
  case (Cons v vs)
  then show ?case by (auto split: prod.splits sum.splits)
qed

lemma stack_calls_pushes_fit:
  "- 1 \<le> top_ix s \<Longrightarrow> top_ix s + int (length vs) \<le> STACK_MAX_SIZE - 1 \<Longrightarrow>
     \<exists>s1. stack_calls s (map Push vs) = (Inr [], s1) \<and> top_ix s1 = top_ix s + int (length vs)"
proof (induction vs arbitrary: s)
  case Nil
  then show ?case by simp
next
  case (Cons v vs)
  let ?s = "s\<lparr>data := (data s)(top_ix s + 1 := v), top_ix := top_ix s + 1\<rparr>"
  from Cons.prems have p: "stack_push s v = (Inr (), ?s)"
    by (simp add: stack_push_def stack_isFull_def in_data_def)
  from Cons.prems have "- 1 \<le> top_ix ?s" "top_ix ?s + int (length vs) \<le> STACK_MAX_SIZE - 1"
    by simp_all
  from Cons.IH [OF this] obtain s1 where
    "stack_calls ?s (map Push vs) = (Inr [], s1)" "top_ix s1 = top_ix ?s + int (length vs)"
    by blast
  with p show ?case by simp
qed


text \<open>
  \<^bold>\<open>C6\<close> (overflow). A push on a full stack ends with the fault \<open>StackOverflow\<close> and
  the stack at that moment is the stack before the call: no value written, the
  top index not advanced. Starting from \<^verbatim>\<open>stack_init\<close>, \<open>STACK_MAX_SIZE\<close> pushes in
  a row all succeed and fill the stack, and one more push ends with
  \<open>StackOverflow\<close> in the state that the first \<open>STACK_MAX_SIZE\<close> pushes left.
\<close>

theorem stack_overflow_at_capacity:
  "(stack_isFull s \<longrightarrow> stack_push s v = (Inl StackOverflow, s))
   \<and> (length vs = nat STACK_MAX_SIZE \<longrightarrow>
       (\<exists>s1. stack_calls (stack_init s0) (map Push vs) = (Inr [], s1)
            \<and> top_ix s1 = STACK_MAX_SIZE - 1
            \<and> stack_calls (stack_init s0) (map Push (vs @ [v])) = (Inl StackOverflow, s1)))"
proof (intro conjI impI)
  assume "stack_isFull s"
  then show "stack_push s v = (Inl StackOverflow, s)" by (simp add: stack_push_def)
next
  assume n: "length vs = nat STACK_MAX_SIZE"
  have "- 1 \<le> top_ix (stack_init s0)"
    "top_ix (stack_init s0) + int (length vs) \<le> STACK_MAX_SIZE - 1"
    using n by (simp_all add: stack_init_def STACK_MAX_SIZE_def)
  from stack_calls_pushes_fit [OF this] obtain s1 where
    c: "stack_calls (stack_init s0) (map Push vs) = (Inr [], s1)"
    and t: "top_ix s1 = top_ix (stack_init s0) + int (length vs)"
    by blast
  from t n have t': "top_ix s1 = STACK_MAX_SIZE - 1"
    by (simp add: stack_init_def STACK_MAX_SIZE_def)
  then have "stack_push s1 v = (Inl StackOverflow, s1)"
    by (simp add: stack_push_def stack_isFull_def)
  with stack_calls_pushes_append [OF c, of "[Push v]"]
  have "stack_calls (stack_init s0) (map Push (vs @ [v])) = (Inl StackOverflow, s1)"
    by simp
  with c t' show "\<exists>s1. stack_calls (stack_init s0) (map Push vs) = (Inr [], s1)
            \<and> top_ix s1 = STACK_MAX_SIZE - 1
            \<and> stack_calls (stack_init s0) (map Push (vs @ [v])) = (Inl StackOverflow, s1)"
    by blast
qed

theorem stack_overflow_at_capacity_witness:
  "stack_isFull (zero_stack\<lparr>top_ix := 1023\<rparr>)
   \<and> stack_push (zero_stack\<lparr>top_ix := 1023\<rparr>) 7 = (Inl StackOverflow, zero_stack\<lparr>top_ix := 1023\<rparr>)
   \<and> length (replicate 1024 (7::int32)) = nat STACK_MAX_SIZE
   \<and> (\<exists>s1. stack_calls (stack_init zero_stack) (map Push (replicate 1024 7)) = (Inr [], s1)
          \<and> top_ix s1 = STACK_MAX_SIZE - 1
          \<and> stack_calls (stack_init zero_stack) (map Push (replicate 1024 7 @ [7]))
              = (Inl StackOverflow, s1))"
proof -
  have f: "stack_isFull (zero_stack\<lparr>top_ix := 1023\<rparr>)"
    by (simp add: stack_isFull_def STACK_MAX_SIZE_def)
  have n: "length (replicate 1024 (7::int32)) = nat STACK_MAX_SIZE"
    by (simp add: STACK_MAX_SIZE_def)
  from stack_overflow_at_capacity [of "zero_stack\<lparr>top_ix := 1023\<rparr>" 7 "replicate 1024 7" zero_stack]
    f n show ?thesis by blast
qed

section \<open>Properties of the code segment\<close>

lemma code_segment_init_ok:
  "0 < initial_capacity \<Longrightarrow> segment_ok (code_segment_init seg initial_capacity)"
  by (simp add: segment_ok_def code_segment_init_def malloc_def)

lemma code_segment_write_ok:
  assumes "segment_ok seg"
  shows "\<exists>seg'. code_segment_write seg b = (Inr (), seg')
           \<and> segment_ok seg'
           \<and> length_cs seg' = length_cs seg + 1
           \<and> code seg' ! length_cs seg = Some b
           \<and> (\<forall>i < length_cs seg. code seg' ! i = code seg ! i)
           \<and> capacity seg' = (if length_cs seg = capacity seg then capacity seg * 2 else capacity seg)"
proof (cases "length_cs seg = capacity seg")
  case True
  with assms show ?thesis
    by (auto simp: segment_ok_def code_segment_write_def realloc_def Let_def nth_append)
next
  case False
  with assms show ?thesis
    by (auto simp: segment_ok_def code_segment_write_def Let_def)
qed

lemma code_segment_write_all_ok:
  assumes "segment_ok seg" and "\<forall>i < length_cs seg. code seg ! i = Some (pre ! i)"
    and "length_cs seg = length pre"
  shows "\<exists>seg'. code_segment_write_all seg bs = (Inr (), seg')
           \<and> segment_ok seg'
           \<and> length_cs seg' = length (pre @ bs)
           \<and> (\<forall>i < length (pre @ bs). code seg' ! i = Some ((pre @ bs) ! i))"
  using assms
proof (induction bs arbitrary: seg pre)
  case Nil
  then show ?case by simp
next
  case (Cons b bs)
  from code_segment_write_ok [OF Cons.prems(1), of b] obtain seg1 where
    w: "code_segment_write seg b = (Inr (), seg1)" and ok: "segment_ok seg1"
    and l: "length_cs seg1 = length_cs seg + 1"
    and n: "code seg1 ! length_cs seg = Some b"
    and k: "\<forall>i < length_cs seg. code seg1 ! i = code seg ! i"
    by blast
  have p: "\<forall>i < length_cs seg1. code seg1 ! i = Some ((pre @ [b]) ! i)"
    using l n k Cons.prems(2,3) by (auto simp: nth_append less_Suc_eq)
  have q: "length_cs seg1 = length (pre @ [b])"
    using l Cons.prems(3) by simp
  from Cons.IH [OF ok p q] w show ?case by simp
qed

text \<open>
  \<^bold>\<open>C8\<close> (append-only code segment). A segment created by \<^verbatim>\<open>code_segment_init\<close> with a
  positive capacity and then changed by calls of \<^verbatim>\<open>code_segment_write\<close> only: every
  such call returns; after any number of them the length is at most the capacity
  and the bytes written so far sit at their indices in order. One more call
  writes its byte at the index given by the current length and adds one to the
  length, keeps every byte written before at its index, doubles the capacity
  when the segment was full and leaves the capacity alone otherwise, and again
  the length is at most the capacity.
\<close>

theorem code_segment_append_invariant:
  assumes "0 < initial_capacity"
  shows "\<exists>seg. code_segment_write_all (code_segment_init seg0 initial_capacity) bs = (Inr (), seg)
           \<and> length_cs seg \<le> capacity seg
           \<and> length (code seg) = capacity seg
           \<and> length_cs seg = length bs
           \<and> (\<forall>i < length bs. code seg ! i = Some (bs ! i))
           \<and> (\<exists>seg'. code_segment_write seg b = (Inr (), seg')
                 \<and> length_cs seg' = length_cs seg + 1
                 \<and> length_cs seg' \<le> capacity seg'
                 \<and> code seg' ! length_cs seg = Some b
                 \<and> (\<forall>i < length_cs seg. code seg' ! i = code seg ! i)
                 \<and> capacity seg' =
                     (if length_cs seg = capacity seg then capacity seg * 2 else capacity seg))"
proof -
  let ?s = "code_segment_init seg0 initial_capacity"
  have ok: "segment_ok ?s" using assms by (rule code_segment_init_ok)
  have "\<forall>i < length_cs ?s. code ?s ! i = Some ([] ! i)" "length_cs ?s = length []"
    by (simp_all add: code_segment_init_def)
  from code_segment_write_all_ok [OF ok this, of bs] obtain seg where
    a: "code_segment_write_all ?s bs = (Inr (), seg)" and s: "segment_ok seg"
    and l: "length_cs seg = length bs"
    and c: "\<forall>i < length bs. code seg ! i = Some (bs ! i)"
    by auto
  from code_segment_write_ok [OF s, of b] obtain seg' where
    "code_segment_write seg b = (Inr (), seg')" "segment_ok seg'"
    "length_cs seg' = length_cs seg + 1" "code seg' ! length_cs seg = Some b"
    "\<forall>i < length_cs seg. code seg' ! i = code seg ! i"
    "capacity seg' = (if length_cs seg = capacity seg then capacity seg * 2 else capacity seg)"
    by blast
  with a s l c show ?thesis
    unfolding segment_ok_def by (intro exI conjI) auto
qed

theorem code_segment_append_invariant_witness:
  "(0::nat) < 2
   \<and> code_segment_write_all (code_segment_init zero_segment 2) [10, 20, 30]
       = (Inr (), \<lparr>code = [Some 10, Some 20, Some 30, None], length_cs = 3, capacity = 4\<rparr>)
   \<and> (\<exists>seg. code_segment_write_all (code_segment_init zero_segment 2) [10, 20] = (Inr (), seg)
           \<and> length_cs seg \<le> capacity seg
           \<and> length (code seg) = capacity seg
           \<and> length_cs seg = length [10 :: uint8, 20]
           \<and> (\<forall>i < length [10 :: uint8, 20]. code seg ! i = Some ([10, 20] ! i))
           \<and> (\<exists>seg'. code_segment_write seg 30 = (Inr (), seg')
                 \<and> length_cs seg' = length_cs seg + 1
                 \<and> length_cs seg' \<le> capacity seg'
                 \<and> code seg' ! length_cs seg = Some 30
                 \<and> (\<forall>i < length_cs seg. code seg' ! i = code seg ! i)
                 \<and> capacity seg' =
                     (if length_cs seg = capacity seg then capacity seg * 2 else capacity seg)))"
proof -
  have h: "(0::nat) < 2" by simp
  have e: "code_segment_write_all (code_segment_init zero_segment 2) [10, 20, 30]
       = (Inr (), \<lparr>code = [Some 10, Some 20, Some 30, None], length_cs = 3, capacity = 4\<rparr>)"
    by (simp add: code_segment_init_def zero_segment_def malloc_def code_segment_write_def
        numeral_2_eq_2 realloc_def)
  from h e code_segment_append_invariant [OF h, of zero_segment "[10, 20]" 30]
  show ?thesis by (intro conjI)
qed

section \<open>Properties of the interpreter\<close>

subsection \<open>Auxiliary facts\<close>

lemma length_stack_values: "length (stack_values s) = nat (top_ix s + 1)"
  by (simp add: stack_values_def)

lemma stack_pop_top:
  assumes "stack_values s = x # xs" and "top_ix s < STACK_MAX_SIZE"
  shows "stack_pop s = (Inr x, s\<lparr>top_ix := top_ix s - 1\<rparr>)"
    and "stack_values (s\<lparr>top_ix := top_ix s - 1\<rparr>) = xs"
proof -
  from assms(1) have "length (stack_values s) = Suc (length xs)" by simp
  then have t: "0 \<le> top_ix s" by (simp add: length_stack_values)
  with assms(2) have p: "stack_pop s = (Inr (data s (top_ix s)), s\<lparr>top_ix := top_ix s - 1\<rparr>)"
    by (simp add: stack_pop_def stack_isEmpty_def in_data_def)
  from stack_values_pop [OF p] assms(1)
  show "stack_values (s\<lparr>top_ix := top_ix s - 1\<rparr>) = xs" and "stack_pop s = (Inr x, s\<lparr>top_ix := top_ix s - 1\<rparr>)"
    using p by simp_all
qed

lemma stack_push_top:
  assumes "- 1 \<le> top_ix s" and "top_ix s < STACK_MAX_SIZE - 1"
  shows "stack_push s v = (Inr (), s\<lparr>data := (data s)(top_ix s + 1 := v), top_ix := top_ix s + 1\<rparr>)"
    and "stack_values (s\<lparr>data := (data s)(top_ix s + 1 := v), top_ix := top_ix s + 1\<rparr>)
           = v # stack_values s"
proof -
  from assms show p: "stack_push s v
      = (Inr (), s\<lparr>data := (data s)(top_ix s + 1 := v), top_ix := top_ix s + 1\<rparr>)"
    by (simp add: stack_push_def stack_isFull_def in_data_def)
  from stack_values_push [OF p]
  show "stack_values (s\<lparr>data := (data s)(top_ix s + 1 := v), top_ix := top_ix s + 1\<rparr>)
           = v # stack_values s" .
qed

lemma two_pops:
  assumes "stack_values (stack v) = b # a # rest" and "top_ix (stack v) < STACK_MAX_SIZE"
  shows "\<exists>v1. vm_pop v = (Inr b, v1) \<and> vm_pop v1 = (Inr a, popped2 v)"
    and "stack_values (stack (popped2 v)) = rest"
    and "1 \<le> top_ix (stack v)"
proof -
  let ?s = "stack v"
  let ?s1 = "?s\<lparr>top_ix := top_ix ?s - 1\<rparr>"
  note p1 = stack_pop_top [OF assms]
  have "top_ix ?s1 < STACK_MAX_SIZE" using assms(2) by simp
  note p2 = stack_pop_top [OF p1(2) this]
  have e: "?s1\<lparr>top_ix := top_ix ?s1 - 1\<rparr> = stack (popped2 v)"
    by (simp add: popped2_def)
  from p2(2) e show "stack_values (stack (popped2 v)) = rest" by simp
  from assms(1) have "length (stack_values ?s) = Suc (Suc (length rest))" by simp
  then show "1 \<le> top_ix ?s" by (simp add: length_stack_values)
  have "vm_pop v = (Inr b, v\<lparr>stack := ?s1\<rparr>)"
    by (simp add: vm_pop_def p1(1))
  moreover have "vm_pop (v\<lparr>stack := ?s1\<rparr>) = (Inr a, popped2 v)"
    using p2(1) by (simp add: vm_pop_def popped2_def)
  ultimately show "\<exists>v1. vm_pop v = (Inr b, v1) \<and> vm_pop v1 = (Inr a, popped2 v)"
    by blast
qed

lemma push_after_two_pops:
  assumes "stack_values (stack v) = b # a # rest" and "top_ix (stack v) < STACK_MAX_SIZE"
  shows "vm_push (popped2 v) x = (Inr (), replaced2 v x)"
    and "stack_values (stack (replaced2 v x)) = x # rest"
proof -
  note t = two_pops [OF assms]
  let ?s = "stack (popped2 v)"
  have a: "- 1 \<le> top_ix ?s" "top_ix ?s < STACK_MAX_SIZE - 1"
    using t(3) assms(2) by (simp_all add: popped2_def)
  note p = stack_push_top [OF a, of x]
  have e: "?s\<lparr>data := (data ?s)(top_ix ?s + 1 := x), top_ix := top_ix ?s + 1\<rparr> = stack (replaced2 v x)"
    by (simp add: popped2_def replaced2_def)
  from p(1) show "vm_push (popped2 v) x = (Inr (), replaced2 v x)"
    by (simp add: vm_push_def popped2_def replaced2_def)
  from p(2) e t(2) show "stack_values (stack (replaced2 v x)) = x # rest"
    by simp
qed

lemma vm_step_fetch:
  "code_at mem (code_segment (vm r)) (ip r) = opcode \<Longrightarrow>
     vm_step mem r = exec mem opcode (r\<lparr>ip := ip r + 1\<rparr>)"
  by (simp add: vm_step_def)

lemma case_OP_ADD_ok:
  assumes "stack_values (stack (vm r)) = b # a # rest" and "top_ix (stack (vm r)) < STACK_MAX_SIZE"
  shows "case_OP_ADD r = (Inr (), r\<lparr>vm := replaced2 (vm r) (a + b)\<rparr>)"
proof -
  from two_pops(1) [OF assms] obtain v1 where
    "vm_pop (vm r) = (Inr b, v1)" "vm_pop v1 = (Inr a, popped2 (vm r))" by blast
  with push_after_two_pops(1) [OF assms, of "a + b"] show ?thesis
    by (simp add: case_OP_ADD_def)
qed

lemma case_OP_SUB_ok:
  assumes "stack_values (stack (vm r)) = b # a # rest" and "top_ix (stack (vm r)) < STACK_MAX_SIZE"
  shows "case_OP_SUB r = (Inr (), r\<lparr>vm := replaced2 (vm r) (a - b)\<rparr>)"
proof -
  from two_pops(1) [OF assms] obtain v1 where
    "vm_pop (vm r) = (Inr b, v1)" "vm_pop v1 = (Inr a, popped2 (vm r))" by blast
  with push_after_two_pops(1) [OF assms, of "a - b"] show ?thesis
    by (simp add: case_OP_SUB_def)
qed

lemma case_OP_MUL_ok:
  assumes "stack_values (stack (vm r)) = b # a # rest" and "top_ix (stack (vm r)) < STACK_MAX_SIZE"
  shows "case_OP_MUL r = (Inr (), r\<lparr>vm := replaced2 (vm r) (a * b)\<rparr>)"
proof -
  from two_pops(1) [OF assms] obtain v1 where
    "vm_pop (vm r) = (Inr b, v1)" "vm_pop v1 = (Inr a, popped2 (vm r))" by blast
  with push_after_two_pops(1) [OF assms, of "a * b"] show ?thesis
    by (simp add: case_OP_MUL_def)
qed


lemma holds_program_at:
  "holds_program seg bytes \<Longrightarrow> i < length bytes \<Longrightarrow> code_at mem seg i = bytes ! i"
  by (simp add: holds_program_def code_at_def)

lemma holds_program_length: "holds_program seg bytes \<Longrightarrow> length_cs seg = length bytes"
  by (simp add: holds_program_def)

lemmas run_defs = vm_run_def vm_init_def stack_init_def vm_step_def exec_def
  case_OP_NOP_def case_OP_PUSH_def case_OP_POP_def case_OP_DUP_def case_OP_SWAP_def
  case_OP_ADD_def case_OP_SUB_def case_OP_MUL_def case_OP_DIV_def case_OP_PRINT_def
  case_OP_STOP_def case_default_def vm_push_def vm_pop_def vm_peek_def
  stack_push_def stack_pop_def stack_peek_def stack_isFull_def stack_isEmpty_def
  in_data_def STACK_MAX_SIZE_def

lemma holds_program_assemble: "holds_program (assemble bytes) bytes"
proof -
  let ?s = "code_segment_init zero_segment 256"
  have ok: "segment_ok ?s" by (rule code_segment_init_ok) simp
  have "\<forall>i < length_cs ?s. code ?s ! i = Some ([] ! i)" "length_cs ?s = length []"
    by (simp_all add: code_segment_init_def)
  from code_segment_write_all_ok [OF ok this, of bytes] obtain seg where
    a: "code_segment_write_all ?s bytes = (Inr (), seg)" and s: "segment_ok seg"
    and l: "length_cs seg = length bytes"
    and c: "\<forall>i < length bytes. code seg ! i = Some (bytes ! i)"
    by auto
  from a have e: "assemble bytes = seg" by (simp add: assemble_def)
  from s l c show ?thesis
    unfolding e holds_program_def segment_ok_def by auto
qed

lemma stack_values_init: "stack_values (stack (vm_init v seg)) = []"
  by (simp add: vm_init_def stack_init_def stack_values_def)


lemma exec_ADD: "opcode = enum_val OP_ADD \<Longrightarrow> exec mem opcode r = case_OP_ADD r"
  and exec_SUB: "opcode = enum_val OP_SUB \<Longrightarrow> exec mem opcode r = case_OP_SUB r"
  and exec_MUL: "opcode = enum_val OP_MUL \<Longrightarrow> exec mem opcode r = case_OP_MUL r"
  and exec_DIV: "opcode = enum_val OP_DIV \<Longrightarrow> exec mem opcode r = case_OP_DIV r"
  and exec_PUSH: "opcode = enum_val OP_PUSH \<Longrightarrow> exec mem opcode r = case_OP_PUSH mem r"
  by (simp_all add: exec_def)

lemma case_OP_PUSH_ok:
  assumes "code_at mem (code_segment (vm r)) (ip r) = b"
    and "- 1 \<le> top_ix (stack (vm r))" and "top_ix (stack (vm r)) < STACK_MAX_SIZE - 1"
  shows "case_OP_PUSH mem r =
     (Inr (), r\<lparr>vm := (vm r)\<lparr>stack := (stack (vm r))
                   \<lparr>data := (data (stack (vm r)))(top_ix (stack (vm r)) + 1 := ucast b),
                    top_ix := top_ix (stack (vm r)) + 1\<rparr>\<rparr>,
                ip := ip r + 1\<rparr>)"
  using assms stack_push_top(1) [OF assms(2,3), of "ucast b"]
  by (simp add: case_OP_PUSH_def vm_push_def)

lemma sint_ucast_byte: "sint (ucast (b :: uint8) :: int32) = uint b"
proof -
  have u: "uint b < 2 ^ 8" using uint_lt2p [of b] by simp
  have "(0::int) \<le> uint b" by simp
  then have z: "- 2147483648 \<le> uint b" by linarith
  have "sint (ucast b :: int32) = signed_take_bit 31 (uint b)"
    by (simp add: signed_ucast_eq)
  also have "\<dots> = uint b"
    using u z by (simp add: signed_take_bit_int_eq_self_iff)
  finally show ?thesis .
qed

lemma uint_byte_le: "uint (b :: uint8) \<le> 255"
  using uint_lt2p [of b] by simp









lemma vm_push_running: "vm_push v x = (res, v') \<Longrightarrow> running v' = running v"
  by (auto simp: vm_push_def split: prod.splits)

lemma vm_pop_running: "vm_pop v = (res, v') \<Longrightarrow> running v' = running v"
  by (auto simp: vm_pop_def split: prod.splits)

lemma vm_peek_running: "vm_peek v = (res, v') \<Longrightarrow> running v' = running v"
  by (auto simp: vm_peek_def split: prod.splits)

lemma vm_pop_value: "vm_pop v = (Inr x, v') \<Longrightarrow> x = data (stack v) (top_ix (stack v))"
  by (auto simp: vm_pop_def stack_pop_def split: prod.splits if_splits)

lemma running_NOP: "case_OP_NOP r = (res, r') \<Longrightarrow> running (vm r') = running (vm r)"
  by (auto simp: case_OP_NOP_def)

lemma running_PUSH: "case_OP_PUSH mem r = (res, r') \<Longrightarrow> running (vm r') = running (vm r)"
  by (auto simp: case_OP_PUSH_def split: prod.splits dest!: vm_push_running)

lemma running_POP: "case_OP_POP r = (res, r') \<Longrightarrow> running (vm r') = running (vm r)"
  by (auto simp: case_OP_POP_def split: sum.splits prod.splits dest!: vm_pop_running)

lemma running_DUP: "case_OP_DUP r = (res, r') \<Longrightarrow> running (vm r') = running (vm r)"
  by (auto simp: case_OP_DUP_def split: sum.splits prod.splits
      dest!: vm_push_running vm_peek_running)

lemma running_SWAP: "case_OP_SWAP r = (res, r') \<Longrightarrow> running (vm r') = running (vm r)"
  by (auto simp: case_OP_SWAP_def split: sum.splits prod.splits
      dest!: vm_push_running vm_pop_running)

lemma running_ADD: "case_OP_ADD r = (res, r') \<Longrightarrow> running (vm r') = running (vm r)"
  by (auto simp: case_OP_ADD_def split: sum.splits prod.splits
      dest!: vm_push_running vm_pop_running)

lemma running_SUB: "case_OP_SUB r = (res, r') \<Longrightarrow> running (vm r') = running (vm r)"
  by (auto simp: case_OP_SUB_def split: sum.splits prod.splits
      dest!: vm_push_running vm_pop_running)

lemma running_MUL: "case_OP_MUL r = (res, r') \<Longrightarrow> running (vm r') = running (vm r)"
  by (auto simp: case_OP_MUL_def split: sum.splits prod.splits
      dest!: vm_push_running vm_pop_running)

lemma running_DIV:
  assumes "case_OP_DIV r = (Inr u, r')"
  shows "running (vm r') = (running (vm r) \<and> data (stack (vm r)) (top_ix (stack (vm r))) \<noteq> 0)"
proof -
  from assms obtain b v1 a v2 where p1: "vm_pop (vm r) = (Inr b, v1)"
    and p2: "vm_pop v1 = (Inr a, v2)"
    by (auto simp: case_OP_DIV_def split: sum.splits prod.splits)
  note b = vm_pop_value [OF p1]
  note k = vm_pop_running [OF p1] vm_pop_running [OF p2]
  show ?thesis
  proof (cases "b = 0")
    case True
    with assms p1 p2 have "\<not> running (vm r')" by (auto simp: case_OP_DIV_def)
    with True b show ?thesis by simp
  next
    case False
    with assms p1 p2 obtain q v3 where "vm_push v2 q = (Inr u, v3)" "vm r' = v3"
      by (auto simp: case_OP_DIV_def split: prod.splits sum.splits)
    with vm_push_running [OF this(1)] k False b show ?thesis by simp
  qed
qed

lemma running_PRINT: "case_OP_PRINT r = (res, r') \<Longrightarrow> running (vm r') = running (vm r)"
  by (auto simp: case_OP_PRINT_def split: sum.splits prod.splits dest!: vm_pop_running)

lemma running_STOP: "case_OP_STOP r = (res, r') \<Longrightarrow> \<not> running (vm r')"
  by (auto simp: case_OP_STOP_def)

lemma running_default: "case_default opcode r = (res, r') \<Longrightarrow> \<not> running (vm r')"
  by (auto simp: case_default_def)

lemma handled_iff:
  "handled opcode \<longleftrightarrow> opcode = 0 \<or> opcode = 1 \<or> opcode = 2 \<or> opcode = 3 \<or> opcode = 4
     \<or> opcode = 5 \<or> opcode = 6 \<or> opcode = 7 \<or> opcode = 8 \<or> opcode = 16 \<or> opcode = 17"
  by (auto simp: handled_def)

lemma exec_running:
  assumes "exec mem opcode r = (Inr u, r')"
  shows "running (vm r') =
     (running (vm r) \<and> opcode \<noteq> enum_val OP_STOP
      \<and> \<not> (opcode = enum_val OP_DIV \<and> data (stack (vm r)) (top_ix (stack (vm r))) = 0)
      \<and> handled opcode)"
proof -
  consider "opcode = 0" | "opcode = 1" | "opcode = 2" | "opcode = 3" | "opcode = 4"
    | "opcode = 5" | "opcode = 6" | "opcode = 7" | "opcode = 8" | "opcode = 16" | "opcode = 17"
    | "\<not> handled opcode"
    by (auto simp: handled_iff)
  then show ?thesis
  proof cases
    case 1 with assms running_NOP [of r "Inr u" r'] show ?thesis
      by (simp add: exec_def handled_iff)
  next
    case 2 with assms running_PUSH [of mem r "Inr u" r'] show ?thesis
      by (simp add: exec_def handled_iff)
  next
    case 3 with assms running_POP [of r "Inr u" r'] show ?thesis
      by (simp add: exec_def handled_iff)
  next
    case 4 with assms running_DUP [of r "Inr u" r'] show ?thesis
      by (simp add: exec_def handled_iff)
  next
    case 5 with assms running_SWAP [of r "Inr u" r'] show ?thesis
      by (simp add: exec_def handled_iff)
  next
    case 6 with assms running_ADD [of r "Inr u" r'] show ?thesis
      by (simp add: exec_def handled_iff)
  next
    case 7 with assms running_SUB [of r "Inr u" r'] show ?thesis
      by (simp add: exec_def handled_iff)
  next
    case 8 with assms running_MUL [of r "Inr u" r'] show ?thesis
      by (simp add: exec_def handled_iff)
  next
    case 9 with assms running_DIV [of r u r'] show ?thesis
      by (simp add: exec_def handled_iff)
  next
    case 10 with assms running_PRINT [of r "Inr u" r'] show ?thesis
      by (simp add: exec_def handled_iff)
  next
    case 11 with assms running_STOP [of r "Inr u" r'] show ?thesis
      by (simp add: exec_def handled_iff)
  next
    case 12
    then have "exec mem opcode r = case_default opcode r"
      by (simp add: exec_def handled_iff)
    with assms running_default [of opcode r "Inr u" r'] 12 show ?thesis by simp
  qed
qed

lemma iteration_running:
  assumes "iteration mem r r'"
  shows "running (vm r') = (\<not> halts_run mem r)"
proof -
  from assms have run: "running (vm r)" and st: "vm_step mem r = (Inr (), r')"
    by (simp_all add: iteration_def)
  from st have "exec mem (code_at mem (code_segment (vm r)) (ip r)) (r\<lparr>ip := ip r + 1\<rparr>)
      = (Inr (), r')"
    by (simp add: vm_step_def)
  from exec_running [OF this] run show ?thesis
    by (auto simp: halts_run_def Let_def)
qed

lemma vm_loop_iterations:
  "vm_loop mem r = (Inr u, r') \<Longrightarrow>
     (iteration mem)\<^sup>*\<^sup>* r r'
     \<and> \<not> (running (vm r') \<and> ip r' < length_cs (code_segment (vm r')))"
proof (induction mem r rule: vm_loop.induct)
  case (1 mem r)
  show ?case
  proof (cases "running (vm r) \<and> ip r < length_cs (code_segment (vm r))")
    case False
    with "1.prems" show ?thesis by (simp add: vm_loop.simps)
  next
    case True
    with "1.prems" obtain r1 where st: "vm_step mem r = (Inr (), r1)"
      and l: "vm_loop mem r1 = (Inr u, r')"
      by (subst (asm) vm_loop.simps) (auto split: prod.splits sum.splits)
    from "1.IH" [OF True _ _ l, of "Inr ()" "()"] st
    have "(iteration mem)\<^sup>*\<^sup>* r1 r'
        \<and> \<not> (running (vm r') \<and> ip r' < length_cs (code_segment (vm r')))"
      by simp
    moreover from True st have "iteration mem r r1" by (simp add: iteration_def)
    ultimately show ?thesis by (auto intro: converse_rtranclp_into_rtranclp)
  qed
qed

lemma unhandled_step:
  assumes "code_at mem (code_segment (vm r)) (ip r) = opcode" and "\<not> handled opcode"
  shows "vm_step mem r =
     (Inr (), r\<lparr>ip := ip r + 1, vm := (vm r)\<lparr>running := False\<rparr>,
                err := err r @ ''Unknown opcode: '' @ dec_nat (unat opcode) @ [newline]\<rparr>)"
proof -
  from assms(2) have "exec mem opcode (r\<lparr>ip := ip r + 1\<rparr>)
      = case_default opcode (r\<lparr>ip := ip r + 1\<rparr>)"
    by (simp add: exec_def handled_iff)
  with vm_step_fetch [OF assms(1)] show ?thesis
    by (simp add: case_default_def)
qed

lemma declared_but_unhandled:
  "\<not> handled (enum_val OP_JMP)" "\<not> handled (enum_val OP_JZ)" "\<not> handled (enum_val OP_JNZ)"
  "\<not> handled (enum_val OP_CALL)" "\<not> handled (enum_val OP_RET)"
  "\<not> handled (enum_val OP_LOAD)" "\<not> handled (enum_val OP_STORE)"
  by (simp_all add: handled_iff)

text \<open>
  On a machine that \<^verbatim>\<open>vm_init\<close> has prepared, the stack array is never accessed
  outside its bounds: when the model of \<^verbatim>\<open>vm_run\<close> does not return, the process
  has ended in one of the exits of the source or in the division.
\<close>

lemma stack_push_safe:
  "stack_ok s \<Longrightarrow> stack_push s x = (res, s') \<Longrightarrow> stack_ok s' \<and> res \<noteq> Inl OutOfBounds"
  by (auto simp: stack_ok_def stack_push_def stack_isFull_def in_data_def split: if_splits)

lemma stack_pop_safe:
  "stack_ok s \<Longrightarrow> stack_pop s = (res, s') \<Longrightarrow> stack_ok s' \<and> res \<noteq> Inl OutOfBounds"
  by (auto simp: stack_ok_def stack_pop_def stack_isEmpty_def in_data_def split: if_splits)

lemma stack_peek_safe:
  "stack_ok s \<Longrightarrow> stack_peek s = (res, s') \<Longrightarrow> stack_ok s' \<and> res \<noteq> Inl OutOfBounds"
  by (auto simp: stack_ok_def stack_peek_def in_data_def split: if_splits)

lemma vm_push_safe:
  "stack_ok (stack v) \<Longrightarrow> vm_push v x = (res, v') \<Longrightarrow>
     stack_ok (stack v') \<and> res \<noteq> Inl OutOfBounds"
  by (auto simp: vm_push_def split: prod.splits dest: stack_push_safe)

lemma vm_pop_safe:
  "stack_ok (stack v) \<Longrightarrow> vm_pop v = (res, v') \<Longrightarrow>
     stack_ok (stack v') \<and> res \<noteq> Inl OutOfBounds"
  by (auto simp: vm_pop_def split: prod.splits dest: stack_pop_safe)

lemma vm_peek_safe:
  "stack_ok (stack v) \<Longrightarrow> vm_peek v = (res, v') \<Longrightarrow>
     stack_ok (stack v') \<and> res \<noteq> Inl OutOfBounds"
  by (auto simp: vm_peek_def split: prod.splits dest: stack_peek_safe)

lemma safe_NOP: "stack_ok (stack (vm r)) \<Longrightarrow> safe (case_OP_NOP r)"
  by (simp add: safe_def case_OP_NOP_def)

lemma safe_STOP: "stack_ok (stack (vm r)) \<Longrightarrow> safe (case_OP_STOP r)"
  by (simp add: safe_def case_OP_STOP_def)

lemma safe_default: "stack_ok (stack (vm r)) \<Longrightarrow> safe (case_default opcode r)"
  by (simp add: safe_def case_default_def)

lemma safe_PUSH: "stack_ok (stack (vm r)) \<Longrightarrow> safe (case_OP_PUSH mem r)"
  by (auto simp: safe_def case_OP_PUSH_def split: prod.splits dest: vm_push_safe)

lemma safe_POP: "stack_ok (stack (vm r)) \<Longrightarrow> safe (case_OP_POP r)"
  by (auto simp: safe_def case_OP_POP_def split: prod.splits sum.splits dest: vm_pop_safe)

lemma safe_PRINT: "stack_ok (stack (vm r)) \<Longrightarrow> safe (case_OP_PRINT r)"
  by (auto simp: safe_def case_OP_PRINT_def split: prod.splits sum.splits dest: vm_pop_safe)

lemma safe_DUP:
  assumes "stack_ok (stack (vm r))"
  shows "safe (case_OP_DUP r)"
proof -
  obtain r1 v1 where p1: "vm_peek (vm r) = (r1, v1)" by fastforce
  note s1 = vm_peek_safe [OF assms p1]
  show ?thesis
  proof (cases r1)
    case (Inl f)
    with p1 s1 show ?thesis by (simp add: safe_def case_OP_DUP_def)
  next
    case (Inr x)
    obtain r2 v2 where p2: "vm_push v1 x = (r2, v2)" by fastforce
    from vm_push_safe [OF _ p2] s1 p1 p2 Inr show ?thesis
      by (simp add: safe_def case_OP_DUP_def)
  qed
qed

lemma safe_binary:
  assumes "stack_ok (stack (vm r))"
    and "\<And>v2 a b. stack_ok (stack v2) \<Longrightarrow> safe (k b a v2)"
  shows "safe (case vm_pop (vm r) of
                 (Inl f, v1) \<Rightarrow> (Inl f, r\<lparr>vm := v1\<rparr>)
               | (Inr b, v1) \<Rightarrow>
              (case vm_pop v1 of
                 (Inl f, v2) \<Rightarrow> (Inl f, r\<lparr>vm := v2\<rparr>)
               | (Inr a, v2) \<Rightarrow> k b a v2))"
proof -
  obtain r1 v1 where p1: "vm_pop (vm r) = (r1, v1)" by fastforce
  note s1 = vm_pop_safe [OF assms(1) p1]
  show ?thesis
  proof (cases r1)
    case (Inl f)
    with p1 s1 show ?thesis by (simp add: safe_def)
  next
    case b: (Inr b)
    obtain r2 v2 where p2: "vm_pop v1 = (r2, v2)" by fastforce
    from s1 have "stack_ok (stack v1)" by simp
    note s2 = vm_pop_safe [OF this p2]
    show ?thesis
    proof (cases r2)
      case (Inl f)
      with p1 p2 b s2 show ?thesis by (simp add: safe_def)
    next
      case (Inr a)
      with p1 p2 b assms(2) [of v2 b a] s2 show ?thesis by simp
    qed
  qed
qed

lemma safe_push_result:
  "stack_ok (stack v) \<Longrightarrow> safe (case vm_push v x of (res, v3) \<Rightarrow> (res, r\<lparr>vm := v3\<rparr>))"
  by (auto simp: safe_def split: prod.splits dest: vm_push_safe)

lemma safe_ADD: "stack_ok (stack (vm r)) \<Longrightarrow> safe (case_OP_ADD r)"
  unfolding case_OP_ADD_def by (rule safe_binary) (simp_all add: safe_push_result)

lemma safe_SUB: "stack_ok (stack (vm r)) \<Longrightarrow> safe (case_OP_SUB r)"
  unfolding case_OP_SUB_def by (rule safe_binary) (simp_all add: safe_push_result)

lemma safe_MUL: "stack_ok (stack (vm r)) \<Longrightarrow> safe (case_OP_MUL r)"
  unfolding case_OP_MUL_def by (rule safe_binary) (simp_all add: safe_push_result)

lemma safe_DIV: "stack_ok (stack (vm r)) \<Longrightarrow> safe (case_OP_DIV r)"
  unfolding case_OP_DIV_def
  by (rule safe_binary)
     (auto simp: safe_push_result c_div_def, simp_all add: safe_def)

lemma safe_SWAP:
  assumes "stack_ok (stack (vm r))"
  shows "safe (case_OP_SWAP r)"
proof -
  obtain r1 v1 where p1: "vm_pop (vm r) = (r1, v1)" by fastforce
  note s1 = vm_pop_safe [OF assms p1]
  show ?thesis
  proof (cases r1)
    case (Inl f)
    with p1 s1 show ?thesis by (simp add: safe_def case_OP_SWAP_def)
  next
    case a: (Inr a)
    obtain r2 v2 where p2: "vm_pop v1 = (r2, v2)" by fastforce
    from s1 have "stack_ok (stack v1)" by simp
    note s2 = vm_pop_safe [OF this p2]
    show ?thesis
    proof (cases r2)
      case (Inl f)
      with p1 p2 a s2 show ?thesis by (simp add: safe_def case_OP_SWAP_def)
    next
      case b: (Inr b)
      obtain r3 v3 where p3: "vm_push v2 a = (r3, v3)" by fastforce
      from s2 have "stack_ok (stack v2)" by simp
      note s3 = vm_push_safe [OF this p3]
      show ?thesis
      proof (cases r3)
        case (Inl f)
        with p1 p2 p3 a b s3 show ?thesis by (simp add: safe_def case_OP_SWAP_def)
      next
        case (Inr u)
        obtain r4 v4 where p4: "vm_push v3 b = (r4, v4)" by fastforce
        from s3 have "stack_ok (stack v3)" by simp
        from vm_push_safe [OF this p4] p1 p2 p3 p4 a b Inr show ?thesis
          by (simp add: safe_def case_OP_SWAP_def)
      qed
    qed
  qed
qed

lemma safe_exec: "stack_ok (stack (vm r)) \<Longrightarrow> safe (exec mem opcode r)"
  unfolding exec_def
  by (simp add: safe_NOP safe_PUSH safe_POP safe_DUP safe_SWAP safe_ADD safe_SUB safe_MUL
      safe_DIV safe_PRINT safe_STOP safe_default)

lemma safe_vm_step: "stack_ok (stack (vm r)) \<Longrightarrow> safe (vm_step mem r)"
  unfolding vm_step_def by (rule safe_exec) simp

lemma safe_vm_loop: "stack_ok (stack (vm r)) \<Longrightarrow> safe (vm_loop mem r)"
proof (induction mem r rule: vm_loop.induct)
  case (1 mem r)
  show ?case
  proof (cases "running (vm r) \<and> ip r < length_cs (code_segment (vm r))")
    case False
    then have "vm_loop mem r = (Inr (), r)" by (subst vm_loop.simps) auto
    with "1.prems" show ?thesis by (simp add: safe_def)
  next
    case True
    obtain res r1 where st: "vm_step mem r = (res, r1)" by fastforce
    from safe_vm_step [OF "1.prems", of mem] st
    have s1: "stack_ok (stack (vm r1))" "res \<noteq> Inl OutOfBounds" by (simp_all add: safe_def)
    show ?thesis
    proof (cases res)
      case (Inl f)
      with True st have "vm_loop mem r = (Inl f, r1)" by (subst vm_loop.simps) simp
      with s1 Inl show ?thesis by (simp add: safe_def)
    next
      case (Inr u)
      with True st have "vm_loop mem r = vm_loop mem r1" by (subst vm_loop.simps) simp
      with "1.IH" [OF True _ _ s1(1), of "Inr u" u] st Inr show ?thesis by simp
    qed
  qed
qed

lemma vm_run_initialised: "fst (vm_run mem (vm_init v seg)) \<noteq> Inl OutOfBounds"
proof -
  have "stack_ok (stack (vm \<lparr>vm = (vm_init v seg)\<lparr>running := True\<rparr>, ip = 0, out = [], err = []\<rparr>))"
    by (simp add: vm_init_def stack_init_def stack_ok_def STACK_MAX_SIZE_def)
  from safe_vm_loop [OF this, of mem] show ?thesis
    by (simp add: safe_def vm_run_def)
qed

subsection \<open>Runs of whole programs\<close>

text \<open>
  \<^bold>\<open>C1\<close>. On a code segment that holds \<^verbatim>\<open>PUSH 5, PUSH 4, ADD, PRINT, STOP\<close>, \<^verbatim>\<open>vm_run\<close>
  returns; it has written \<^verbatim>\<open>9\<close> and a newline to the standard output and nothing to
  the standard error stream, and the flag \<^verbatim>\<open>running\<close> is false. This holds for every
  machine that \<^verbatim>\<open>vm_init\<close> has prepared, whatever its memory held before.
\<close>

theorem run_push_push_add_print_stop:
  assumes "holds_program seg
     [enum_val OP_PUSH, 5, enum_val OP_PUSH, 4, enum_val OP_ADD, enum_val OP_PRINT,
      enum_val OP_STOP]"
  shows "\<exists>r. vm_run mem (vm_init v seg) = (Inr (), r) \<and> out r = ''9'' @ [newline]
     \<and> \<not> running (vm r) \<and> err r = [] \<and> ip r = 7 \<and> stack_values (stack (vm r)) = []"
proof -
  note a = holds_program_at [OF assms]
  have l: "length_cs seg = 7" using holds_program_length [OF assms] by simp
  show ?thesis
    by (simp add: run_defs vm_loop.simps a l dec_int_def stack_values_def)
qed

theorem run_push_push_add_print_stop_witness:
  "holds_program (assemble [enum_val OP_PUSH, 5, enum_val OP_PUSH, 4, enum_val OP_ADD,
      enum_val OP_PRINT, enum_val OP_STOP])
     [enum_val OP_PUSH, 5, enum_val OP_PUSH, 4, enum_val OP_ADD, enum_val OP_PRINT,
      enum_val OP_STOP]
   \<and> (\<exists>r. vm_run zero_mem (vm_init zero_vm (assemble [enum_val OP_PUSH, 5, enum_val OP_PUSH, 4,
             enum_val OP_ADD, enum_val OP_PRINT, enum_val OP_STOP])) = (Inr (), r)
        \<and> out r = ''9'' @ [newline]
        \<and> \<not> running (vm r) \<and> err r = [] \<and> ip r = 7 \<and> stack_values (stack (vm r)) = [])"
  using holds_program_assemble run_push_push_add_print_stop [OF holds_program_assemble]
  by (intro conjI)

subsection \<open>Single instructions\<close>

text \<open>
  \<^bold>\<open>C5\<close>. An iteration of the loop that fetches \<^verbatim>\<open>ADD\<close>, \<^verbatim>\<open>SUB\<close> or \<^verbatim>\<open>MUL\<close> while the stack
  holds \<open>b\<close> on top of \<open>a\<close> on top of the values \<open>rest\<close>: the iteration returns, and
  the stack then holds one value on top of \<open>rest\<close>, namely \<open>a + b\<close>, \<open>a - b\<close> or
  \<open>a * b\<close>. So two values were popped, the right operand \<open>b\<close> first, and one was
  pushed. Read as a signed number, the result is the sum, difference or product
  of the signed operands, reduced to 32 bits. Nothing else changes but \<^verbatim>\<open>ip\<close>, which
  has moved by one.
\<close>

theorem arith_pops_two_pushes_one:
  assumes "code_at mem (code_segment (vm r)) (ip r) = opcode"
    and "opcode = enum_val OP_ADD \<or> opcode = enum_val OP_SUB \<or> opcode = enum_val OP_MUL"
    and "stack_values (stack (vm r)) = b # a # rest"
    and "top_ix (stack (vm r)) < STACK_MAX_SIZE"
  shows "\<exists>r'. vm_step mem r = (Inr (), r')
     \<and> stack_values (stack (vm r')) =
         (if opcode = enum_val OP_ADD then a + b
          else if opcode = enum_val OP_SUB then a - b else a * b) # rest
     \<and> stack_size (stack (vm r')) = stack_size (stack (vm r)) - 1
     \<and> sint (hd (stack_values (stack (vm r')))) =
         signed_take_bit 31
           (if opcode = enum_val OP_ADD then sint a + sint b
            else if opcode = enum_val OP_SUB then sint a - sint b else sint a * sint b)
     \<and> ip r' = ip r + 1 \<and> running (vm r') = running (vm r)
     \<and> code_segment (vm r') = code_segment (vm r) \<and> out r' = out r \<and> err r' = err r"
proof -
  let ?r1 = "r\<lparr>ip := ip r + 1\<rparr>"
  let ?x = "if opcode = enum_val OP_ADD then a + b
          else if opcode = enum_val OP_SUB then a - b else a * b"
  have s: "stack_values (stack (vm ?r1)) = b # a # rest" "top_ix (stack (vm ?r1)) < STACK_MAX_SIZE"
    using assms(3,4) by simp_all
  have "exec mem opcode ?r1 = (Inr (), ?r1\<lparr>vm := replaced2 (vm ?r1) ?x\<rparr>)"
    using assms(2) case_OP_ADD_ok [OF s] case_OP_SUB_ok [OF s] case_OP_MUL_ok [OF s]
    by (auto simp: exec_ADD exec_SUB exec_MUL)
  with vm_step_fetch [OF assms(1)]
  have st: "vm_step mem r = (Inr (), ?r1\<lparr>vm := replaced2 (vm ?r1) ?x\<rparr>)" by simp
  have v: "stack_values (stack (replaced2 (vm r) ?x)) = ?x # rest"
    by (rule push_after_two_pops(2) [OF assms(3,4)])
  have z: "stack_size (stack (replaced2 (vm r) ?x)) = stack_size (stack (vm r)) - 1"
    by (simp add: replaced2_def stack_size_def)
  have w: "sint ?x = signed_take_bit 31
           (if opcode = enum_val OP_ADD then sint a + sint b
            else if opcode = enum_val OP_SUB then sint a - sint b else sint a * sint b)"
    by (simp add: sint_word_ariths)
  from st v z w show ?thesis
    by (simp add: replaced2_def)
qed


theorem arith_pops_two_pushes_one_witness:
  "code_at zero_mem (code_segment (vm sub_state)) (ip sub_state) = enum_val OP_SUB
   \<and> stack_values (stack (vm sub_state)) = [3, 7]
   \<and> top_ix (stack (vm sub_state)) < STACK_MAX_SIZE
   \<and> (\<exists>r'. vm_step zero_mem sub_state = (Inr (), r')
       \<and> stack_values (stack (vm r')) = [4]
       \<and> stack_size (stack (vm r')) = 1
       \<and> sint (hd (stack_values (stack (vm r')))) = 4
       \<and> ip r' = 1 \<and> running (vm r'))"
proof -
  have c: "code_at zero_mem (code_segment (vm sub_state)) (ip sub_state) = enum_val OP_SUB"
    using holds_program_at [OF holds_program_assemble, of 0 "[enum_val OP_SUB]"]
    by (simp add: sub_state_def)
  have o: "enum_val OP_SUB = enum_val OP_ADD \<or> enum_val OP_SUB = enum_val OP_SUB
      \<or> enum_val OP_SUB = enum_val OP_MUL"
    by simp
  have v: "stack_values (stack (vm sub_state)) = [3, 7]"
    by (simp add: sub_state_def stack_values_def numeral_2_eq_2)
  have t: "top_ix (stack (vm sub_state)) < STACK_MAX_SIZE"
    by (simp add: sub_state_def STACK_MAX_SIZE_def)
  from arith_pops_two_pushes_one [OF c o v t] obtain r' where
    "vm_step zero_mem sub_state = (Inr (), r')" "stack_values (stack (vm r')) = [7 - 3]"
    "stack_size (stack (vm r')) = stack_size (stack (vm sub_state)) - 1"
    "sint (hd (stack_values (stack (vm r')))) = signed_take_bit 31 (sint (7 :: int32) - sint (3 :: int32))"
    "ip r' = ip sub_state + 1" "running (vm r') = running (vm sub_state)"
    by auto
  then have "vm_step zero_mem sub_state = (Inr (), r')
       \<and> stack_values (stack (vm r')) = [4]
       \<and> stack_size (stack (vm r')) = 1
       \<and> sint (hd (stack_values (stack (vm r')))) = 4
       \<and> ip r' = 1 \<and> running (vm r')"
    by (simp add: sub_state_def stack_size_def)
  with c v t show ?thesis by blast
qed

text \<open>
  \<^bold>\<open>C10\<close>. An iteration of the loop that fetches \<^verbatim>\<open>PUSH\<close> followed by the byte \<open>b\<close>,
  on a stack with room for one more value: the value pushed is \<open>b\<close> extended with
  zeros. As a signed 32-bit number it equals the unsigned value of the byte, so
  it lies between 0 and 255 and is not negative, also for the bytes from 128 on.
\<close>

theorem push_immediate_zero_extended:
  assumes "code_at mem (code_segment (vm r)) (ip r) = enum_val OP_PUSH"
    and "code_at mem (code_segment (vm r)) (ip r + 1) = b"
    and "- 1 \<le> top_ix (stack (vm r))" and "top_ix (stack (vm r)) < STACK_MAX_SIZE - 1"
  shows "\<exists>r' x. vm_step mem r = (Inr (), r')
     \<and> stack_values (stack (vm r')) = x # stack_values (stack (vm r))
     \<and> x = ucast b \<and> sint x = uint b \<and> 0 \<le> sint x \<and> sint x \<le> 255
     \<and> ip r' = ip r + 2 \<and> running (vm r') = running (vm r)"
proof -
  let ?r1 = "r\<lparr>ip := ip r + 1\<rparr>"
  let ?s = "stack (vm r)"
  let ?s' = "?s\<lparr>data := (data ?s)(top_ix ?s + 1 := ucast b), top_ix := top_ix ?s + 1\<rparr>"
  have "case_OP_PUSH mem ?r1 = (Inr (), ?r1\<lparr>vm := (vm ?r1)\<lparr>stack := ?s'\<rparr>, ip := ip ?r1 + 1\<rparr>)"
    using case_OP_PUSH_ok [of mem ?r1 b] assms(2-4) by simp
  with vm_step_fetch [OF assms(1)]
  have st: "vm_step mem r = (Inr (), ?r1\<lparr>vm := (vm ?r1)\<lparr>stack := ?s'\<rparr>, ip := ip ?r1 + 1\<rparr>)"
    by (simp add: exec_PUSH)
  have v: "stack_values ?s' = ucast b # stack_values ?s"
    by (rule stack_push_top(2) [OF assms(3,4)])
  have "sint (ucast b :: int32) = uint b" by (rule sint_ucast_byte)
  moreover have "0 \<le> uint b" by simp
  moreover have "uint b \<le> 255" by (rule uint_byte_le)
  ultimately show ?thesis using st v by simp
qed

theorem push_immediate_zero_extended_witness:
  "code_at zero_mem (code_segment (vm push_state)) (ip push_state) = enum_val OP_PUSH
   \<and> code_at zero_mem (code_segment (vm push_state)) (ip push_state + 1) = 200
   \<and> - 1 \<le> top_ix (stack (vm push_state))
   \<and> top_ix (stack (vm push_state)) < STACK_MAX_SIZE - 1
   \<and> (\<exists>r' x. vm_step zero_mem push_state = (Inr (), r')
        \<and> stack_values (stack (vm r')) = [x] \<and> sint x = 200 \<and> ip r' = 2)"
proof -
  note h = holds_program_at [OF holds_program_assemble, of _ "[enum_val OP_PUSH, 200]"]
  have c: "code_at zero_mem (code_segment (vm push_state)) (ip push_state) = enum_val OP_PUSH"
    using h [of 0] by (simp add: push_state_def vm_init_def)
  have i: "code_at zero_mem (code_segment (vm push_state)) (ip push_state + 1) = 200"
    using h [of 1] by (simp add: push_state_def vm_init_def)
  have t: "- 1 \<le> top_ix (stack (vm push_state))"
    "top_ix (stack (vm push_state)) < STACK_MAX_SIZE - 1"
    by (simp_all add: push_state_def vm_init_def stack_init_def STACK_MAX_SIZE_def)
  have e: "stack_values (stack (vm push_state)) = []"
    by (simp add: push_state_def stack_values_init)
  from push_immediate_zero_extended [OF c i t] obtain r' x where
    "vm_step zero_mem push_state = (Inr (), r')"
    "stack_values (stack (vm r')) = x # stack_values (stack (vm push_state))"
    "sint x = uint (200 :: uint8)" "ip r' = ip push_state + 2"
    by blast
  then have "vm_step zero_mem push_state = (Inr (), r')
        \<and> stack_values (stack (vm r')) = [x] \<and> sint x = 200 \<and> ip r' = 2"
    using e by (simp add: push_state_def)
  with c i t show ?thesis by blast
qed




subsection \<open>Opcodes without a case label\<close>

text \<open>
  \<^bold>\<open>C3\<close>. What \<^verbatim>\<open>vm_run\<close> does with \<^verbatim>\<open>JZ\<close> and \<^verbatim>\<open>JNZ\<close>. The enumeration declares
  \<^verbatim>\<open>OP_JZ\<close> (``jump if zero'') and \<^verbatim>\<open>OP_JNZ\<close> (``jump if not zero''), but the
  \<^verbatim>\<open>switch\<close> has no \<^verbatim>\<open>case\<close> for them. On \<^verbatim>\<open>PUSH 0, JZ 7, PUSH 1, PRINT, STOP\<close> the run
  ends at the \<^verbatim>\<open>JZ\<close> with the line \<^verbatim>\<open>Unknown opcode: 10\<close>: the condition 0 is still
  on the stack and \<^verbatim>\<open>ip\<close> is 3, not the target 7. The same happens on
  \<^verbatim>\<open>PUSH 1, JNZ 7, PUSH 1, PRINT, STOP\<close> with \<^verbatim>\<open>Unknown opcode: 11\<close>.
\<close>

theorem conditional_jumps_not_implemented:
  "(\<exists>r. vm_run mem (vm_init zero_vm (assemble jz_program)) = (Inr (), r)
        \<and> err r = ''Unknown opcode: 10'' @ [newline] \<and> out r = []
        \<and> \<not> running (vm r) \<and> ip r = 3 \<and> stack_values (stack (vm r)) = [0])
   \<and> (\<exists>r. vm_run mem (vm_init zero_vm (assemble jnz_program)) = (Inr (), r)
        \<and> err r = ''Unknown opcode: 11'' @ [newline] \<and> out r = []
        \<and> \<not> running (vm r) \<and> ip r = 3 \<and> stack_values (stack (vm r)) = [1])"
proof
  define seg where "seg = assemble jz_program"
  have p: "holds_program seg
      [enum_val OP_PUSH, 0, enum_val OP_JZ, 7, enum_val OP_PUSH, 1, enum_val OP_PRINT,
       enum_val OP_STOP]"
    unfolding seg_def jz_program_def by (rule holds_program_assemble)
  note a = holds_program_at [OF p]
  have l: "length_cs seg = 8" using holds_program_length [OF p] by simp
  have "\<exists>r. vm_run mem (vm_init zero_vm seg) = (Inr (), r)
        \<and> err r = ''Unknown opcode: 10'' @ [newline] \<and> out r = []
        \<and> \<not> running (vm r) \<and> ip r = 3 \<and> stack_values (stack (vm r)) = [0]"
    by (simp add: run_defs vm_loop.simps a l stack_values_def)
  then show "\<exists>r. vm_run mem (vm_init zero_vm (assemble jz_program)) = (Inr (), r)
        \<and> err r = ''Unknown opcode: 10'' @ [newline] \<and> out r = []
        \<and> \<not> running (vm r) \<and> ip r = 3 \<and> stack_values (stack (vm r)) = [0]"
    by (simp only: seg_def)
next
  define seg where "seg = assemble jnz_program"
  have p: "holds_program seg
      [enum_val OP_PUSH, 1, enum_val OP_JNZ, 7, enum_val OP_PUSH, 1, enum_val OP_PRINT,
       enum_val OP_STOP]"
    unfolding seg_def jnz_program_def by (rule holds_program_assemble)
  note a = holds_program_at [OF p]
  have l: "length_cs seg = 8" using holds_program_length [OF p] by simp
  have "\<exists>r. vm_run mem (vm_init zero_vm seg) = (Inr (), r)
        \<and> err r = ''Unknown opcode: 11'' @ [newline] \<and> out r = []
        \<and> \<not> running (vm r) \<and> ip r = 3 \<and> stack_values (stack (vm r)) = [1]"
    by (simp add: run_defs vm_loop.simps a l stack_values_def)
  then show "\<exists>r. vm_run mem (vm_init zero_vm (assemble jnz_program)) = (Inr (), r)
        \<and> err r = ''Unknown opcode: 11'' @ [newline] \<and> out r = []
        \<and> \<not> running (vm r) \<and> ip r = 3 \<and> stack_values (stack (vm r)) = [1]"
    by (simp only: seg_def)
qed

text \<open>
  \<^bold>\<open>C4\<close>. What \<^verbatim>\<open>vm_run\<close> does with \<^verbatim>\<open>CALL\<close>. The source has a call stack
  (\<^verbatim>\<open>call_stack_push\<close>, \<^verbatim>\<open>call_stack_pop\<close>) and declares \<^verbatim>\<open>OP_CALL\<close> and \<^verbatim>\<open>OP_RET\<close>, but
  the machine has no call stack and the \<^verbatim>\<open>switch\<close> has no \<^verbatim>\<open>case\<close> for the two
  opcodes. On \<^verbatim>\<open>CALL 3, STOP, RET\<close> the run ends at the \<^verbatim>\<open>CALL\<close> with the line
  \<^verbatim>\<open>Unknown opcode: 12\<close> and \<^verbatim>\<open>ip\<close> at 1: no frame is pushed, control does not reach
  the \<^verbatim>\<open>RET\<close> at 3 and does not come back to the \<^verbatim>\<open>STOP\<close> at 2.
\<close>

theorem call_not_implemented:
  "\<exists>r. vm_run mem (vm_init zero_vm (assemble call_program)) = (Inr (), r)
        \<and> err r = ''Unknown opcode: 12'' @ [newline] \<and> out r = []
        \<and> \<not> running (vm r) \<and> ip r = 1 \<and> stack_values (stack (vm r)) = []"
proof -
  define seg where "seg = assemble call_program"
  have p: "holds_program seg [enum_val OP_CALL, 3, enum_val OP_STOP, enum_val OP_RET]"
    unfolding seg_def call_program_def by (rule holds_program_assemble)
  note a = holds_program_at [OF p]
  have l: "length_cs seg = 4" using holds_program_length [OF p] by simp
  have "\<exists>r. vm_run mem (vm_init zero_vm seg) = (Inr (), r)
        \<and> err r = ''Unknown opcode: 12'' @ [newline] \<and> out r = []
        \<and> \<not> running (vm r) \<and> ip r = 1 \<and> stack_values (stack (vm r)) = []"
    by (simp add: run_defs vm_loop.simps a l stack_values_def)
  then show ?thesis by (simp only: seg_def)
qed

subsection \<open>The flag when the run returns\<close>

lemma run_no_stop:
  assumes "holds_program seg no_stop_program"
  shows "\<exists>r. vm_run mem (vm_init v seg) = (Inr (), r) \<and> running (vm r)
     \<and> out r = ''9'' @ [newline] \<and> err r = [] \<and> ip r = 6"
proof -
  note a = holds_program_at [OF assms [unfolded no_stop_program_def]]
  have l: "length_cs seg = 6"
    using holds_program_length [OF assms] by (simp add: no_stop_program_def)
  show ?thesis
    by (simp add: run_defs vm_loop.simps a l dec_int_def)
qed

text \<open>
  A \<^verbatim>\<open>PUSH\<close> in the last byte of the code: the source reads the byte behind it,
  pushes it, and \<^verbatim>\<open>vm_run\<close> returns with \<^verbatim>\<open>ip\<close> one past the length.
\<close>

lemma run_dangling_push:
  assumes "holds_program seg dangling_push_program"
  shows "\<exists>r. vm_run mem (vm_init v seg) = (Inr (), r) \<and> running (vm r) \<and> ip r = 2
     \<and> stack_values (stack (vm r)) = [ucast (code_at mem seg 1)]"
proof -
  note a = holds_program_at [OF assms [unfolded dangling_push_program_def]]
  have l: "length_cs seg = 1"
    using holds_program_length [OF assms] by (simp add: dangling_push_program_def)
  show ?thesis
    by (simp add: run_defs vm_loop.simps a l stack_values_def)
qed

text \<open>
  \<^bold>\<open>C7\<close>, as stated, fails: on \<^verbatim>\<open>PUSH 5, PUSH 4, ADD, PRINT\<close> (no \<^verbatim>\<open>STOP\<close>) \<^verbatim>\<open>vm_run\<close>
  returns when \<^verbatim>\<open>ip\<close> reaches the length of the code segment, and \<^verbatim>\<open>running\<close> is
  still true.
\<close>

theorem run_without_stop_keeps_flag:
  "fst (vm_run zero_mem (vm_init zero_vm (assemble no_stop_program))) = Inr ()
   \<and> running (vm (snd (vm_run zero_mem (vm_init zero_vm (assemble no_stop_program)))))"
  using run_no_stop [OF holds_program_assemble, of zero_mem zero_vm] by auto

text \<open>
  \<^bold>\<open>C7\<close>, amended. When \<^verbatim>\<open>vm_run\<close> returns, \<^verbatim>\<open>running\<close> is false exactly when the last
  iteration of the loop executed \<^verbatim>\<open>STOP\<close>, a \<^verbatim>\<open>DIV\<close> by zero or a byte without a
  \<^verbatim>\<open>case\<close> label. When \<^verbatim>\<open>running\<close> is still true, \<^verbatim>\<open>ip\<close> has reached the length of the
  code segment. This covers every run that returns, whatever the reads of the
  code find (\<open>mem\<close>): by \<open>vm_run_initialised\<close>, a run on a machine from \<^verbatim>\<open>vm_init\<close>
  that does not return has ended the process, in an exit of the source or in a
  division.
\<close>

theorem run_returns_flag:
  assumes "vm_run mem v = (Inr u, r)"
  shows "(\<not> running (vm r)) =
           (\<exists>r1. (iteration mem)\<^sup>*\<^sup>* \<lparr>vm = v\<lparr>running := True\<rparr>, ip = 0, out = [], err = []\<rparr> r1
                \<and> iteration mem r1 r \<and> halts_run mem r1)
       \<and> (running (vm r) \<longrightarrow> length_cs (code_segment (vm r)) \<le> ip r)"
proof -
  let ?r0 = "\<lparr>vm = v\<lparr>running := True\<rparr>, ip = 0, out = [], err = []\<rparr>"
  from assms have "vm_loop mem ?r0 = (Inr u, r)" by (simp add: vm_run_def)
  from vm_loop_iterations [OF this]
  have it: "(iteration mem)\<^sup>*\<^sup>* ?r0 r"
    and ex: "\<not> (running (vm r) \<and> ip r < length_cs (code_segment (vm r)))"
    by simp_all
  have "\<exists>r1. (iteration mem)\<^sup>*\<^sup>* ?r0 r1 \<and> iteration mem r1 r \<and> halts_run mem r1"
    if "\<not> running (vm r)"
  proof -
    from that have "?r0 \<noteq> r" by auto
    with it obtain r1 where a: "(iteration mem)\<^sup>*\<^sup>* ?r0 r1" and b: "iteration mem r1 r"
      by (auto elim: rtranclp.cases)
    from iteration_running [OF b] that have "halts_run mem r1" by simp
    with a b show ?thesis by blast
  qed
  moreover have "\<not> running (vm r)"
    if "\<exists>r1. (iteration mem)\<^sup>*\<^sup>* ?r0 r1 \<and> iteration mem r1 r \<and> halts_run mem r1"
    using that iteration_running by blast
  ultimately show ?thesis using ex by auto
qed

theorem run_returns_flag_witness:
  "vm_run zero_mem (vm_init zero_vm (assemble no_stop_program))
     = (Inr (), snd (vm_run zero_mem (vm_init zero_vm (assemble no_stop_program))))
   \<and> running (vm (snd (vm_run zero_mem (vm_init zero_vm (assemble no_stop_program)))))
   \<and> length_cs (code_segment (vm (snd (vm_run zero_mem (vm_init zero_vm (assemble no_stop_program))))))
       \<le> ip (snd (vm_run zero_mem (vm_init zero_vm (assemble no_stop_program))))
   \<and> \<not> (\<exists>r1. (iteration zero_mem)\<^sup>*\<^sup>*
              \<lparr>vm = (vm_init zero_vm (assemble no_stop_program))\<lparr>running := True\<rparr>,
               ip = 0, out = [], err = []\<rparr> r1
            \<and> iteration zero_mem r1
                 (snd (vm_run zero_mem (vm_init zero_vm (assemble no_stop_program))))
            \<and> halts_run zero_mem r1)
   \<and> vm_run zero_mem (vm_init zero_vm (assemble dangling_push_program))
     = (Inr (), snd (vm_run zero_mem (vm_init zero_vm (assemble dangling_push_program))))
   \<and> running (vm (snd (vm_run zero_mem (vm_init zero_vm (assemble dangling_push_program)))))
   \<and> length_cs (code_segment
        (vm (snd (vm_run zero_mem (vm_init zero_vm (assemble dangling_push_program))))))
       \<le> ip (snd (vm_run zero_mem (vm_init zero_vm (assemble dangling_push_program))))"
proof -
  let ?v = "vm_init zero_vm (assemble no_stop_program)"
  let ?w = "vm_init zero_vm (assemble dangling_push_program)"
  from run_no_stop [OF holds_program_assemble, of zero_mem zero_vm]
  have h: "vm_run zero_mem ?v = (Inr (), snd (vm_run zero_mem ?v))"
    and k: "running (vm (snd (vm_run zero_mem ?v)))"
    by auto
  from run_dangling_push [OF holds_program_assemble, of zero_mem zero_vm]
  have h': "vm_run zero_mem ?w = (Inr (), snd (vm_run zero_mem ?w))"
    and k': "running (vm (snd (vm_run zero_mem ?w)))"
    by auto
  from run_returns_flag [OF h] run_returns_flag [OF h'] h k h' k' show ?thesis by simp
qed

end
